theory Spec2Isabelle
  imports Complex_Main "HOL-Library.Multiset" "HOL-Library.Char_ord" "HOL-Library.List_Lexorder"
    "HOL-Library.Log_Nat"
begin

section \<open>The CSV generator of \<^verbatim>\<open>generate-large-csv.py\<close>\<close>

text \<open>
  The script has one function, \<^verbatim>\<open>generate_large_csv(filename, num_rows)\<close>, and a
  command-line dispatch. The embedding follows the source line by line:
  \<^item> a cell handed to \<^verbatim>\<open>csv.writer\<close> is a value of \<open>cell\<close>; the writer's own text
    escaping is not modelled, a row is the list of cells passed to \<^verbatim>\<open>writerow\<close>;
  \<^item> Python's \<^verbatim>\<open>int\<close> is \<open>int\<close>; a Python \<^verbatim>\<open>float\<close> is the rational number its
    binary64 value denotes, and every float operation rounds its exact result to the
    nearest binary64 value, ties to even (\<open>to_float\<close>); the magnitudes of this program
    stay far below the overflow threshold, so infinities are not modelled;
  \<^item> the module-level random generator is a stream of raw naturals; every call
    of the \<^verbatim>\<open>random\<close> module consumes one raw value and reduces it into the range
    the library documents for that call;
  \<^item> the file system and the standard output are fields of \<open>world\<close>; an exception
    is a value of \<open>outcome\<close>, returned together with the world it leaves behind.
\<close>

subsection \<open>Values, errors and the world\<close>

datatype cell =
    Str string
  | Num int
  | Flt rat
  | Stamp int int int
    \<comment> \<open>\<open>Stamp d h m\<close>: the text of
        \<^verbatim>\<open>(datetime(2020, 1, 1) + timedelta(days=d, hours=h, minutes=m)).isoformat()\<close>\<close>

datatype py_error = ZeroDivisionError | OSError

datatype outcome = Returned | Raised py_error

datatype out_event =
    Generating int        \<comment> \<open>line 13: \<^verbatim>\<open>Generating {num_rows:,} rows of data...\<close>\<close>
  | Progress rat int      \<comment> \<open>line 70: the float \<^verbatim>\<open>progress\<close> (before \<^verbatim>\<open>.0f\<close>) and the row count\<close>
  | Flush                 \<comment> \<open>line 71: \<^verbatim>\<open>sys.stdout.flush()\<close>\<close>
  | Generated string      \<comment> \<open>line 73\<close>
  | FileSize string       \<comment> \<open>line 77: the size of the named file, number not modelled\<close>
  | Columns nat           \<comment> \<open>line 78\<close>
  | Rows int              \<comment> \<open>line 79\<close>
  | Usage                 \<comment> \<open>line 94\<close>

record world =
  files :: "string \<rightharpoonup> cell list list"
  writable :: "string \<Rightarrow> bool"
  stdout :: "out_event list"

subsection \<open>Floats\<close>

definition round_half_even :: "rat \<Rightarrow> int" where
  "round_half_even y =
     (let f = \<lfloor>y\<rfloor>; r = y - of_int f
      in if r < 1 / 2 then f else if 1 / 2 < r then f + 1
         else if even f then f else f + 1)"

definition expo :: "rat \<Rightarrow> int" where
  \<comment> \<open>the binary exponent of a positive number: \<open>2 powi expo y \<le> y < 2 powi (expo y + 1)\<close>\<close>
  "expo y =
     (let (p, q) = quotient_of y; c = bitlen p - bitlen q
      in if 2 powi c \<le> y then c else c - 1)"

definition to_float :: "rat \<Rightarrow> rat" where
  \<comment> \<open>the binary64 value nearest to \<open>x\<close>, ties to even: 53 significant bits, the
      smallest step \<open>2 powi - 1074\<close>\<close>
  "to_float x =
     (if x = 0 then 0
      else (let e = max (expo \<bar>x\<bar> - 52) (- 1074)
            in of_int (round_half_even (x / 2 powi e)) * 2 powi e))"

definition fadd :: "rat \<Rightarrow> rat \<Rightarrow> rat" where
  "fadd x y = to_float (x + y)"

definition fsub :: "rat \<Rightarrow> rat \<Rightarrow> rat" where
  "fsub x y = to_float (x - y)"

definition fmul :: "rat \<Rightarrow> rat \<Rightarrow> rat" where
  "fmul x y = to_float (x * y)"

definition fdiv :: "rat \<Rightarrow> rat \<Rightarrow> rat" where
  \<comment> \<open>true division, also of two integers\<close>
  "fdiv x y = to_float (x / y)"

definition py_round :: "rat \<Rightarrow> nat \<Rightarrow> rat" where
  \<comment> \<open>\<^verbatim>\<open>round(x, ndigits)\<close> of a float: the multiple of 10**-ndigits nearest to the
      exact value of \<open>x\<close>, ties to even, then the float nearest to that decimal\<close>
  "py_round x ndigits =
     to_float (of_int (round_half_even (x * 10 ^ ndigits)) / 10 ^ ndigits)"

subsection \<open>The random module\<close>

type_synonym rng = "nat \<Rightarrow> nat"

definition next_raw :: "rng \<Rightarrow> nat \<times> rng" where
  "next_raw g = (g 0, \<lambda>k. g (Suc k))"

definition randint :: "int \<Rightarrow> int \<Rightarrow> rng \<Rightarrow> int \<times> rng" where
  \<comment> \<open>\<^verbatim>\<open>random.randint(a, b)\<close>: an integer N with a <= N <= b\<close>
  "randint a b g = (let (r, g') = next_raw g in (a + int (r mod nat (b - a + 1)), g'))"

definition choice :: "'a list \<Rightarrow> rng \<Rightarrow> 'a \<times> rng" where
  \<comment> \<open>\<^verbatim>\<open>random.choice(seq)\<close>: \<^verbatim>\<open>seq[randbelow(len(seq))]\<close>; every call site passes a
      non-empty literal list\<close>
  "choice xs g = (let (r, g') = next_raw g in (xs ! (r mod length xs), g'))"

definition random :: "rng \<Rightarrow> rat \<times> rng" where
  \<comment> \<open>\<^verbatim>\<open>random.random()\<close>: a multiple of 2**-53 in [0, 1)\<close>
  "random g = (let (r, g') = next_raw g in (of_nat (r mod 2 ^ 53) / 2 ^ 53, g'))"

definition uniform :: "rat \<Rightarrow> rat \<Rightarrow> rng \<Rightarrow> rat \<times> rng" where
  \<comment> \<open>\<^verbatim>\<open>random.uniform(a, b)\<close> is \<^verbatim>\<open>a + (b - a) * random()\<close>\<close>
  "uniform a b g = (let (u, g') = random g in (fadd a (fmul (fsub b a) u), g'))"

subsection \<open>Built-in formatting\<close>

definition digit_char :: "nat \<Rightarrow> char" where
  "digit_char d = ''0123456789'' ! d"

fun dec :: "nat \<Rightarrow> string" where
  "dec n = (if n < 10 then [digit_char n] else dec (n div 10) @ [digit_char (n mod 10)])"

declare dec.simps [simp del]

definition zero_pad :: "nat \<Rightarrow> string \<Rightarrow> string" where
  "zero_pad w s = replicate (w - length s) (CHR ''0'') @ s"

definition fmt_0d :: "nat \<Rightarrow> int \<Rightarrow> string" where
  \<comment> \<open>the format spec \<^verbatim>\<open>0{w}d\<close>: sign first, then zeros up to the width\<close>
  "fmt_0d w n =
     (if n < 0 then CHR ''-'' # zero_pad (w - 1) (dec (nat (- n)))
      else zero_pad w (dec (nat n)))"

definition lower_char :: "char \<Rightarrow> char" where
  "lower_char c =
     (case map_of (zip ''ABCDEFGHIJKLMNOPQRSTUVWXYZ'' ''abcdefghijklmnopqrstuvwxyz'') c of
        Some d \<Rightarrow> d
      | None \<Rightarrow> c)"

definition lower :: "string \<Rightarrow> string" where
  \<comment> \<open>\<^verbatim>\<open>str.lower()\<close> on the ASCII letters\<close>
  "lower s = map lower_char s"

subsection \<open>One transaction record\<close>

definition headers :: "string list" where
  "headers =
     [''transaction_id'', ''timestamp'', ''customer_id'', ''product_id'',
      ''category'', ''quantity'', ''unit_price'', ''total_amount'',
      ''payment_method'', ''store_location'', ''discount_applied'',
      ''customer_age'', ''customer_segment'', ''rating'', ''returned'']"

definition categories :: "string list" where
  "categories =
     [''Electronics'', ''Clothing'', ''Food'', ''Home'', ''Sports'', ''Books'', ''Toys'',
      ''Beauty'']"

definition payment_methods :: "string list" where
  "payment_methods =
     [''Credit Card'', ''Debit Card'', ''Cash'', ''Mobile Payment'', ''Gift Card'']"

definition locations :: "string list" where
  "locations =
     [''New York'', ''Los Angeles'', ''Chicago'', ''Houston'', ''Phoenix'', ''Philadelphia'']"

definition segments :: "string list" where
  "segments = [''Regular'', ''Silver'', ''Gold'', ''Platinum'']"

definition discounts :: "cell list" where
  \<comment> \<open>line 50: \<^verbatim>\<open>[0, 0, 0, 0.1, 0.15, 0.2, 0.25]\<close>\<close>
  "discounts =
     [Num 0, Num 0, Num 0, Flt (to_float (1 / 10)), Flt (to_float (15 / 100)),
      Flt (to_float (2 / 10)), Flt (to_float (25 / 100))]"

definition returned_choices :: "string list" where
  "returned_choices = [''Yes'', ''No'', ''No'', ''No'', ''No'']"

fun num_val :: "cell \<Rightarrow> rat" where
  "num_val (Num n) = of_int n"
| "num_val (Flt x) = x"
| "num_val _ = 0"

fun one_minus :: "cell \<Rightarrow> rat" where
  \<comment> \<open>\<^verbatim>\<open>1 - discount\<close>: exact on an \<^verbatim>\<open>int\<close>, a float subtraction on a \<^verbatim>\<open>float\<close>\<close>
  "one_minus (Num n) = of_int (1 - n)"
| "one_minus (Flt x) = fsub 1 x"
| "one_minus _ = 1"

record transaction =
  transaction_id :: string
  timestamp :: "int \<times> int \<times> int"
  customer_id :: string
  product_id :: string
  category :: string
  quantity :: int
  unit_price :: rat
  total_amount :: rat
  payment_method :: string
  store_location :: string
  discount_applied :: cell
  customer_age :: int
  customer_segment :: string
  rating :: cell
  returned :: string

definition draw_rating :: "rng \<Rightarrow> cell \<times> rng" where
  \<comment> \<open>line 57: the condition \<^verbatim>\<open>random.random() > 0.1\<close> is evaluated first, and
      \<^verbatim>\<open>random.uniform(1, 5)\<close> only when it holds\<close>
  "draw_rating g =
     (let (c, g1) = random g
      in if c > to_float (1 / 10)
         then (let (x, g2) = uniform 1 5 g1 in (Flt (py_round x 1), g2))
         else (Str '''', g1))"

definition synth :: "nat \<Rightarrow> rng \<Rightarrow> transaction \<times> rng" where
  \<comment> \<open>lines 39-58, for the loop index \<open>i\<close>\<close>
  "synth i g0 =
     (let (days, g1) = randint 0 1095 g0;
          (hours, g2) = randint 0 23 g1;
          (minutes, g3) = randint 0 59 g2;
          (cust, g4) = randint 1 50000 g3;
          (prd, g5) = randint 1 5000 g4;
          (cat, g6) = choice categories g5;
          (qty, g7) = randint 1 10 g6;
          (price, g8) = uniform (to_float (599 / 100)) (to_float (99999 / 100)) g7;
          up = py_round price 2;
          (discount, g9) = choice discounts g8;
          (pay, g10) = choice payment_methods g9;
          (loc, g11) = choice locations g10;
          (age, g12) = randint 18 80 g11;
          (seg, g13) = choice segments g12;
          (rtg, g14) = draw_rating g13;
          (ret, g15) = choice returned_choices g14
      in (\<lparr>transaction_id = ''TXN'' @ fmt_0d 8 (int i + 1),
           timestamp = (days, hours, minutes),
           customer_id = ''CUST'' @ fmt_0d 6 cust,
           product_id = ''PROD'' @ fmt_0d 5 prd,
           category = cat,
           quantity = qty,
           unit_price = up,
           total_amount = py_round (fmul (fmul (of_int qty) up) (one_minus discount)) 2,
           payment_method = pay,
           store_location = loc,
           discount_applied = discount,
           customer_age = age,
           customer_segment = seg,
           rating = rtg,
           returned = ret\<rparr>, g15))"

definition row_cells :: "transaction \<Rightarrow> cell list" where
  \<comment> \<open>lines 60-65: the list passed to \<^verbatim>\<open>writer.writerow\<close>\<close>
  "row_cells t =
     [Str (transaction_id t),
      (case timestamp t of (d, h, m) \<Rightarrow> Stamp d h m),
      Str (customer_id t), Str (product_id t),
      Str (category t), Num (quantity t), Flt (unit_price t), Flt (total_amount t),
      Str (payment_method t), Str (store_location t), discount_applied t,
      Num (customer_age t), Str (customer_segment t), rating t, Str (returned t)]"

subsection \<open>The write loop and the generator\<close>

fun write_rows ::
  "int \<Rightarrow> int \<Rightarrow> nat list \<Rightarrow> rng \<Rightarrow> cell list list \<Rightarrow> out_event list
     \<Rightarrow> outcome \<times> cell list list \<times> out_event list" where
  "write_rows num_rows progress_interval [] g sink out = (Returned, sink, out)"
| "write_rows num_rows progress_interval (i # is) g sink out =
     (let (t, g') = synth i g;
          sink' = sink @ [row_cells t]
      in if progress_interval = 0 then (Raised ZeroDivisionError, sink', out)
         else if (int i + 1) mod progress_interval = 0
         then write_rows num_rows progress_interval is g' sink'
                (out @ [Progress (fmul (fdiv (of_int (int i + 1)) (of_int num_rows)) 100)
                          (int i + 1),
                        Flush])
         else write_rows num_rows progress_interval is g' sink' out)"

definition generate_large_csv :: "string \<Rightarrow> int \<Rightarrow> rng \<Rightarrow> world \<Rightarrow> outcome \<times> world" where
  "generate_large_csv filename num_rows g w =
     (let w1 = w\<lparr>stdout := stdout w @ [Generating num_rows]\<rparr>
      in if \<not> writable w filename then (Raised OSError, w1)
         else
           (let progress_interval = num_rows div 20;
                (oc, sink, out) =
                   write_rows num_rows progress_interval [0..<nat num_rows] g
                     [map Str headers] (stdout w1);
                w2 = w1\<lparr>files := (files w1)(filename \<mapsto> sink), stdout := out\<rparr>
            in case oc of
                 Raised e \<Rightarrow> (Raised e, w2)
               | Returned \<Rightarrow>
                   (Returned,
                    w2\<lparr>stdout := stdout w2 @
                       [Generated filename, FileSize filename, Columns (length headers),
                        Rows num_rows]\<rparr>)))"

definition main :: "string list \<Rightarrow> rng \<Rightarrow> world \<Rightarrow> outcome \<times> world" where
  \<comment> \<open>lines 81-97, \<open>argv\<close> is \<^verbatim>\<open>sys.argv\<close>\<close>
  "main argv g w =
     (if length argv > 1 then
        (let size = lower (argv ! 1)
         in if size = ''small''
            then generate_large_csv ''test-datasets/large/transactions-small.csv'' 10000 g w
            else if size = ''medium''
            then generate_large_csv ''test-datasets/large/transactions-medium.csv'' 100000 g w
            else if size = ''large''
            then generate_large_csv ''test-datasets/large/transactions-large.csv'' 1000000 g w
            else if size = ''xlarge''
            then generate_large_csv ''test-datasets/large/transactions-xlarge.csv'' 5000000 g w
            else (Returned, w\<lparr>stdout := stdout w @ [Usage]\<rparr>))
      else generate_large_csv ''test-datasets/large/transactions-medium.csv'' 100000 g w)"

subsection \<open>Observing a run\<close>

text \<open>
  \<open>txns is g\<close> lists the records the loop body synthesises for the loop indices \<open>is\<close>,
  the generator state passing from one iteration to the next as in \<open>write_rows\<close>.
\<close>

fun txns :: "nat list \<Rightarrow> rng \<Rightarrow> transaction list" where
  "txns [] g = []"
| "txns (i # is) g = (let (t, g') = synth i g in t # txns is g')"

definition progress_events :: "int \<Rightarrow> int \<Rightarrow> nat \<Rightarrow> out_event list" where
  \<comment> \<open>lines 68-71 for the loop index \<open>i\<close>, when \<open>progress_interval\<close> is not zero\<close>
  "progress_events num_rows progress_interval i =
     (if (int i + 1) mod progress_interval = 0
      then [Progress (fmul (fdiv (of_int (int i + 1)) (of_int num_rows)) 100) (int i + 1),
            Flush]
      else [])"

definition rows_done :: "int \<Rightarrow> nat list" where
  \<comment> \<open>the loop indices whose row reaches the file\<close>
  "rows_done n = (if n \<le> 0 then [] else if n < 20 then [0] else [0..<nat n])"

definition sink_after :: "string \<Rightarrow> int \<Rightarrow> rng \<Rightarrow> world \<Rightarrow> cell list list option" where
  \<comment> \<open>the rows of the output file once the call has returned or raised\<close>
  "sink_after fn n g w = files (snd (generate_large_csv fn n g w)) fn"

definition data_rows :: "string \<Rightarrow> int \<Rightarrow> rng \<Rightarrow> world \<Rightarrow> cell list list" where
  \<comment> \<open>the rows after the first one\<close>
  "data_rows fn n g w = (case sink_after fn n g w of None \<Rightarrow> [] | Some rs \<Rightarrow> tl rs)"

definition emitted :: "string \<Rightarrow> int \<Rightarrow> rng \<Rightarrow> world \<Rightarrow> out_event list" where
  \<comment> \<open>what the call adds to the standard output\<close>
  "emitted fn n g w = drop (length (stdout w)) (stdout (snd (generate_large_csv fn n g w)))"

fun progress_counts :: "out_event list \<Rightarrow> int list" where
  "progress_counts [] = []"
| "progress_counts (Progress p r # es) = r # progress_counts es"
| "progress_counts (e # es) = progress_counts es"

fun flushed :: "out_event list \<Rightarrow> bool" where
  \<comment> \<open>every progress line is followed at once by a flush\<close>
  "flushed [] = True"
| "flushed (Progress p r # es) = (case es of Flush # es' \<Rightarrow> flushed es' | _ \<Rightarrow> False)"
| "flushed (e # es) = flushed es"

definition crosses_boundary :: "int \<Rightarrow> int \<Rightarrow> bool" where
  \<comment> \<open>the spec's words: writing row number \<open>r\<close> takes the count of rows written across
      one of the marks \<open>k * num_rows / 20\<close>, \<open>k = 1, ..., 20\<close>\<close>
  "crosses_boundary num_rows r =
     (\<exists>k \<in> {1..20}. (r - 1) * 20 < k * num_rows \<and> k * num_rows \<le> r * 20)"

definition named_fields :: "transaction \<Rightarrow> (string \<times> cell) list" where
  \<comment> \<open>the value each column name stands for: the local variable of that name at
      lines 39-58 (\<^verbatim>\<open>timestamp\<close> through \<^verbatim>\<open>isoformat()\<close>)\<close>
  "named_fields t =
     [(''transaction_id'', Str (transaction_id t)),
      (''timestamp'', (case timestamp t of (d, h, m) \<Rightarrow> Stamp d h m)),
      (''customer_id'', Str (customer_id t)),
      (''product_id'', Str (product_id t)),
      (''category'', Str (category t)),
      (''quantity'', Num (quantity t)),
      (''unit_price'', Flt (unit_price t)),
      (''discount_applied'', discount_applied t),
      (''total_amount'', Flt (total_amount t)),
      (''payment_method'', Str (payment_method t)),
      (''store_location'', Str (store_location t)),
      (''customer_age'', Num (customer_age t)),
      (''customer_segment'', Str (customer_segment t)),
      (''rating'', rating t),
      (''returned'', Str (returned t))]"

definition spec_columns :: "string list" where
  \<comment> \<open>the column order of the data model table in the specification\<close>
  "spec_columns =
     [''transaction_id'', ''timestamp'', ''customer_id'', ''product_id'',
      ''category'', ''quantity'', ''unit_price'', ''discount_applied'',
      ''total_amount'', ''payment_method'', ''store_location'',
      ''customer_age'', ''customer_segment'', ''rating'', ''returned'']"

definition digit_val :: "char \<Rightarrow> nat" where
  "digit_val c = of_char c - 48"

definition num_of :: "string \<Rightarrow> nat" where
  \<comment> \<open>reading a decimal numeral back\<close>
  "num_of s = foldl (\<lambda>a c. 10 * a + digit_val c) 0 s"

fun cell_text :: "cell \<Rightarrow> string" where
  "cell_text (Str s) = s"
| "cell_text _ = []"

fun txn_number :: "cell \<Rightarrow> nat" where
  \<comment> \<open>the sequence number an identifier cell carries after its three-letter prefix\<close>
  "txn_number (Str s) = num_of (drop 3 s)"
| "txn_number _ = 0"

definition is_digit :: "char \<Rightarrow> bool" where
  "is_digit c = (c \<in> set ''0123456789'')"

definition demo_rng :: rng where
  "demo_rng k = 7 * k + 3"

definition fresh_world :: world where
  "fresh_world = \<lparr>files = Map.empty, writable = (\<lambda>fn. True), stdout = []\<rparr>"

section \<open>The loop and the generator, case by case\<close>

lemma write_rows_nonzero:
  "iv \<noteq> 0 \<Longrightarrow>
   write_rows n iv is g sink out =
     (Returned, sink @ map row_cells (txns is g),
      out @ concat (map (progress_events n iv) is))"
proof (induction "is" arbitrary: g sink out)
  case Nil
  then show ?case by simp
next
  case (Cons i "is")
  then show ?case
    by (simp add: Let_def progress_events_def split: prod.splits)
qed

lemma write_rows_zero:
  "write_rows n 0 (i # is) g sink out =
     (Raised ZeroDivisionError, sink @ [row_cells (fst (synth i g))], out)"
  by (simp add: Let_def split: prod.splits)

lemma generate_nonpos:
  assumes "writable w fn" "n \<le> 0"
  shows "generate_large_csv fn n g w =
    (Returned, w\<lparr>files := (files w)(fn \<mapsto> [map Str headers]),
       stdout := stdout w @ [Generating n, Generated fn, FileSize fn, Columns 15, Rows n]\<rparr>)"
  using assms by (simp add: generate_large_csv_def Let_def headers_def)

lemma generate_small:
  assumes "writable w fn" "1 \<le> n" "n \<le> 19"
  shows "generate_large_csv fn n g w =
    (Raised ZeroDivisionError,
     w\<lparr>files := (files w)(fn \<mapsto> [map Str headers, row_cells (fst (synth 0 g))]),
       stdout := stdout w @ [Generating n]\<rparr>)"
proof -
  from assms have iv: "n div 20 = 0" by simp
  from assms obtain m where m: "nat n = Suc m" by (cases "nat n") auto
  have "[0..<nat n] = 0 # [1..<nat n]" using m by (simp add: upt_conv_Cons)
  then show ?thesis using assms iv
    by (simp add: generate_large_csv_def Let_def write_rows_zero del: write_rows.simps)
qed

lemma generate_large:
  assumes "writable w fn" "20 \<le> n"
  shows "generate_large_csv fn n g w =
    (Returned,
     w\<lparr>files := (files w)(fn \<mapsto> map Str headers # map row_cells (txns [0..<nat n] g)),
       stdout := stdout w @ [Generating n] @ concat (map (progress_events n (n div 20)) [0..<nat n])
          @ [Generated fn, FileSize fn, Columns 15, Rows n]\<rparr>)"
proof -
  from assms have iv: "n div 20 \<noteq> 0" by presburger
  show ?thesis using assms
    by (simp add: generate_large_csv_def Let_def write_rows_nonzero[OF iv] headers_def)
qed

lemma generate_unwritable:
  "\<not> writable w fn \<Longrightarrow>
   generate_large_csv fn n g w = (Raised OSError, w\<lparr>stdout := stdout w @ [Generating n]\<rparr>)"
  by (simp add: generate_large_csv_def Let_def)

section \<open>Rounding to the nearest float\<close>

lemma round_half_even_lower: "of_int a \<le> y \<Longrightarrow> a \<le> round_half_even y"
proof -
  assume "of_int a \<le> y"
  then have "a \<le> \<lfloor>y\<rfloor>" by (simp add: le_floor_iff)
  then show ?thesis by (auto simp: round_half_even_def Let_def)
qed

lemma round_half_even_upper:
  assumes "y \<le> of_int b"
  shows "round_half_even y \<le> b"
proof (cases "y - of_int \<lfloor>y\<rfloor> < 1 / 2")
  case True
  moreover have "\<lfloor>y\<rfloor> \<le> b" using assms by (simp add: floor_le_iff)
  ultimately show ?thesis by (simp add: round_half_even_def Let_def)
next
  case False
  then have "of_int \<lfloor>y\<rfloor> < y" by linarith
  with assms have "(of_int \<lfloor>y\<rfloor> :: rat) < of_int b" by linarith
  then have "\<lfloor>y\<rfloor> < b" by (simp only: of_int_less_iff)
  then show ?thesis by (auto simp: round_half_even_def Let_def)
qed

lemma round_half_even_below_half:
  assumes "y < of_int b + 1 / 2"
  shows "round_half_even y \<le> b"
proof (cases "\<lfloor>y\<rfloor> < b")
  case True
  then show ?thesis by (auto simp: round_half_even_def Let_def)
next
  case False
  have "y < of_int (b + 1)" using assms by simp
  then have "\<lfloor>y\<rfloor> < b + 1" by (simp only: floor_less_iff)
  with False have f: "\<lfloor>y\<rfloor> = b" by simp
  with assms have "y - of_int \<lfloor>y\<rfloor> < 1 / 2" by simp
  with f show ?thesis by (simp add: round_half_even_def Let_def)
qed

lemma round_half_even_of_int: "round_half_even (of_int m) = m"
  by (simp add: round_half_even_def)

lemma expo_bounds:
  assumes "0 < y"
  shows "2 powi expo y \<le> y \<and> y < 2 powi (expo y + 1)"
proof -
  obtain p q where pq: "quotient_of y = (p, q)" by (cases "quotient_of y")
  then have q: "0 < q" by (rule quotient_of_denom_pos)
  from pq have y: "y = of_int p / of_int q" by (rule quotient_of_div)
  with assms q have p: "0 < p" by (simp add: zero_less_divide_iff)
  define c where "c = bitlen p - bitlen q"
  from bitlen_bounds[OF p] have bp: "(2::int) ^ nat (bitlen p - 1) \<le> p" "p < 2 ^ nat (bitlen p)"
    by auto
  from bitlen_bounds[OF q] have bq: "(2::int) ^ nat (bitlen q - 1) \<le> q" "q < 2 ^ nat (bitlen q)"
    by auto
  have lp: "1 \<le> bitlen p" using p bitlen_eq_zero_iff[of p] bitlen_nonneg[of p] by linarith
  have lq: "1 \<le> bitlen q" using q bitlen_eq_zero_iff[of q] bitlen_nonneg[of q] by linarith
  have P1: "(2::rat) powi (bitlen p - 1) \<le> of_int p"
  proof -
    have "(of_int ((2::int) ^ nat (bitlen p - 1)) :: rat) \<le> of_int p"
      using bp(1) by (simp only: of_int_le_iff)
    then show ?thesis using lp by (simp add: power_int_nonneg_exp)
  qed
  have P2: "of_int p < (2::rat) powi bitlen p"
  proof -
    have "(of_int p :: rat) < of_int ((2::int) ^ nat (bitlen p))"
      using bp(2) by (simp only: of_int_less_iff)
    then show ?thesis using lp by (simp add: power_int_nonneg_exp)
  qed
  have Q1: "(2::rat) powi (bitlen q - 1) \<le> of_int q"
  proof -
    have "(of_int ((2::int) ^ nat (bitlen q - 1)) :: rat) \<le> of_int q"
      using bq(1) by (simp only: of_int_le_iff)
    then show ?thesis using lq by (simp add: power_int_nonneg_exp)
  qed
  have Q2: "of_int q < (2::rat) powi bitlen q"
  proof -
    have "(of_int q :: rat) < of_int ((2::int) ^ nat (bitlen q))"
      using bq(2) by (simp only: of_int_less_iff)
    then show ?thesis using lq by (simp add: power_int_nonneg_exp)
  qed
  have qpos: "(0::rat) < of_int q" using q by simp
  have up: "y < 2 powi (c + 1)"
  proof -
    have "y * 2 powi (bitlen q - 1) \<le> y * of_int q"
      using Q1 assms by (intro mult_left_mono) auto
    also have "\<dots> = of_int p" using y qpos by simp
    also have "\<dots> < 2 powi bitlen p" by (rule P2)
    finally have "y * 2 powi (bitlen q - 1) < 2 powi bitlen p" .
    then have "y < 2 powi bitlen p / 2 powi (bitlen q - 1)"
      by (simp add: pos_less_divide_eq)
    also have "\<dots> = 2 powi (bitlen p - (bitlen q - 1))"
      by (simp add: power_int_diff)
    finally show ?thesis by (simp add: c_def algebra_simps)
  qed
  have lo: "2 powi (c - 1) \<le> y"
  proof -
    have "(2::rat) powi (bitlen p - 1) \<le> of_int p" by (rule P1)
    also have "\<dots> = y * of_int q" using y qpos by simp
    also have "\<dots> \<le> y * 2 powi bitlen q"
      using Q2 assms by (intro mult_left_mono) auto
    finally have "2 powi (bitlen p - 1) / 2 powi bitlen q \<le> y"
      by (simp add: pos_divide_le_eq)
    moreover have "(2::rat) powi (bitlen p - 1) / 2 powi bitlen q = 2 powi (bitlen p - 1 - bitlen q)"
      by (simp add: power_int_diff)
    ultimately show ?thesis by (simp add: c_def algebra_simps)
  qed
  have e: "expo y = (if 2 powi c \<le> y then c else c - 1)"
    by (simp add: expo_def pq c_def Let_def)
  show ?thesis
  proof (cases "2 powi c \<le> y")
    case True
    with e up show ?thesis by simp
  next
    case False
    with e lo show ?thesis by simp
  qed
qed

lemma expo_unique:
  assumes "2 powi k \<le> y" "y < 2 powi (k + 1)"
  shows "expo y = k"
proof -
  have "(0::rat) < 2 powi k" by simp
  with assms have y: "0 < y" by linarith
  from expo_bounds[OF y] have b: "2 powi expo y \<le> y" "y < 2 powi (expo y + 1)" by auto
  have s1: "(2::rat) powi k < 2 powi (expo y + 1)" using assms(1) b(2) by linarith
  have 1: "k < expo y + 1"
  proof (rule ccontr)
    assume "\<not> k < expo y + 1"
    then have "(2::rat) powi (expo y + 1) \<le> 2 powi k" by (intro power_int_increasing) auto
    with s1 show False by simp
  qed
  have s2: "(2::rat) powi expo y < 2 powi (k + 1)" using assms(2) b(1) by linarith
  have 2: "expo y < k + 1"
  proof (rule ccontr)
    assume "\<not> expo y < k + 1"
    then have "(2::rat) powi (k + 1) \<le> 2 powi expo y" by (intro power_int_increasing) auto
    with s2 show False by simp
  qed
  from 1 2 show ?thesis by simp
qed


lemma to_float_eval:
  assumes "2 powi k \<le> x" "x < 2 powi (k + 1)" "- 1022 \<le> k"
  shows "to_float x = of_int (round_half_even (x / 2 powi (k - 52))) * 2 powi (k - 52)"
proof -
  have "(0::rat) < 2 powi k" by simp
  with assms(1) have x: "0 < x" by linarith
  then have "expo \<bar>x\<bar> = k" using expo_unique[OF assms(1,2)] by simp
  moreover have "max (k - 52) (- 1074) = k - 52" using assms(3) by simp
  moreover have "x \<noteq> 0" using x by simp
  ultimately show ?thesis unfolding to_float_def Let_def by (simp only: if_False)
qed

lemma to_float_nonneg: "0 \<le> x \<Longrightarrow> 0 \<le> to_float x"
proof -
  assume x: "0 \<le> x"
  have "0 \<le> round_half_even (x / 2 powi e)" for e
    using x by (intro round_half_even_lower) simp
  then show ?thesis by (simp add: to_float_def Let_def)
qed

lemma grid_pow:
  assumes "e \<le> f"
  shows "(2::rat) powi f = of_int (2 ^ nat (f - e)) * 2 powi e"
proof -
  have "(2::rat) powi f = 2 powi (f - e) * 2 powi e"
    using power_int_add[of "2::rat" "f - e" e] by simp
  also have "(2::rat) powi (f - e) = 2 ^ nat (f - e)"
    using assms by (simp add: power_int_nonneg_exp)
  finally show ?thesis by simp
qed

lemma grid_back:
  assumes "e \<le> f"
  shows "of_int (m * 2 ^ nat (f - e)) * (2::rat) powi e = of_int m * 2 powi f"
  using grid_pow[OF assms] by simp

lemma grid_multiple:
  assumes "e \<le> f"
  shows "of_int m * (2::rat) powi f / 2 powi e = of_int (m * 2 ^ nat (f - e))"
proof -
  have b: "of_int m * (2::rat) powi f = of_int (m * 2 ^ nat (f - e)) * 2 powi e"
    by (rule grid_back[OF assms, symmetric])
  have "of_int m * (2::rat) powi f / 2 powi e
      = of_int (m * 2 ^ nat (f - e)) * 2 powi e / 2 powi e" by (simp only: b)
  also have "\<dots> = of_int (m * 2 ^ nat (f - e))"
    by (rule nonzero_mult_div_cancel_right) simp
  finally show ?thesis .
qed

lemma to_float_le_double:
  assumes "0 < x" "x \<le> d" "d = of_int m * 2 powi f" "m < 2 ^ 53" "- 1074 \<le> f"
  shows "to_float x \<le> d"
proof -
  define e where "e = max (expo \<bar>x\<bar> - 52) (- 1074)"
  from expo_bounds[OF assms(1)] have k: "2 powi expo x \<le> x" by simp
  have "d < 2 ^ 53 * 2 powi f"
  proof -
    have "(of_int m :: rat) < of_int (2 ^ 53)" using assms(4) by (simp only: of_int_less_iff)
    then have "of_int m * (2::rat) powi f < of_int (2 ^ 53) * 2 powi f"
      by (intro mult_strict_right_mono) auto
    then show ?thesis using assms(3) by simp
  qed
  also have "\<dots> = 2 powi (53 + f)" by (simp add: power_int_add)
  finally have "(2::rat) powi expo x < 2 powi (53 + f)" using k assms(2) by linarith
  have kf: "expo x < 53 + f"
  proof (rule ccontr)
    assume "\<not> expo x < 53 + f"
    then have "(2::rat) powi (53 + f) \<le> 2 powi expo x" by (intro power_int_increasing) auto
    with \<open>(2::rat) powi expo x < 2 powi (53 + f)\<close> show False by simp
  qed
  have ef: "e \<le> f" using kf assms(1,5) by (simp add: e_def)
  have pe: "(0::rat) < 2 powi e" by simp
  have "x / 2 powi e \<le> d / 2 powi e" using assms(2) pe by (simp add: divide_right_mono)
  also have "\<dots> = of_int (m * 2 ^ nat (f - e))"
    unfolding assms(3) using ef by (rule grid_multiple)
  finally have "round_half_even (x / 2 powi e) \<le> m * 2 ^ nat (f - e)"
    by (rule round_half_even_upper)
  then have "(of_int (round_half_even (x / 2 powi e)) :: rat) \<le> of_int (m * 2 ^ nat (f - e))"
    by (simp only: of_int_le_iff)
  then have "of_int (round_half_even (x / 2 powi e)) * 2 powi e
      \<le> of_int (m * 2 ^ nat (f - e)) * (2::rat) powi e"
    using pe by (intro mult_right_mono) auto
  also have "\<dots> = d"
    unfolding assms(3) using ef by (rule grid_back)
  finally have "of_int (round_half_even (x / 2 powi e)) * 2 powi e \<le> d" .
  moreover have "to_float x = of_int (round_half_even (x / 2 powi e)) * 2 powi e"
    using assms(1) unfolding to_float_def Let_def e_def by simp
  ultimately show ?thesis by simp
qed

lemma double_le_to_float:
  assumes "d \<le> x" "d = of_int m * 2 powi f" "0 < m" "m < 2 ^ 53" "- 1074 \<le> f"
  shows "d \<le> to_float x"
proof -
  have dpos: "0 < d" unfolding assms(2) using assms(3) by simp
  with assms(1) have x: "0 < x" by linarith
  define e where "e = max (expo \<bar>x\<bar> - 52) (- 1074)"
  have pe: "(0::rat) < 2 powi e" by simp
  have fl: "to_float x = of_int (round_half_even (x / 2 powi e)) * 2 powi e"
    using x unfolding to_float_def Let_def e_def by simp
  show ?thesis
  proof (cases "e \<le> f")
    case True
    have "of_int (m * 2 ^ nat (f - e)) = d / 2 powi e"
      unfolding assms(2) using True by (rule grid_multiple[symmetric])
    also have "\<dots> \<le> x / 2 powi e" using assms(1) pe by (simp add: divide_right_mono)
    finally have "m * 2 ^ nat (f - e) \<le> round_half_even (x / 2 powi e)"
      by (rule round_half_even_lower)
    then have "(of_int (m * 2 ^ nat (f - e)) :: rat) \<le> of_int (round_half_even (x / 2 powi e))"
      by (simp only: of_int_le_iff)
    then have "of_int (m * 2 ^ nat (f - e)) * (2::rat) powi e
        \<le> of_int (round_half_even (x / 2 powi e)) * 2 powi e"
      using pe by (intro mult_right_mono) auto
    moreover have "of_int (m * 2 ^ nat (f - e)) * (2::rat) powi e = d"
      unfolding assms(2) using True by (rule grid_back)
    ultimately have "d \<le> of_int (round_half_even (x / 2 powi e)) * 2 powi e"
      by (simp only:)
    then show ?thesis by (simp only: fl)
  next
    case False
    with assms(5) have e: "e = expo x - 52" "f + 1 \<le> e" using x by (auto simp: e_def max_def)
    from expo_bounds[OF x] have k: "2 powi expo x \<le> x" by simp
    have "of_int (2 ^ 52) = (2::rat) powi expo x / 2 powi e"
      by (simp add: e(1) power_int_diff)
    also have "\<dots> \<le> x / 2 powi e" using k pe by (simp add: divide_right_mono)
    finally have "2 ^ 52 \<le> round_half_even (x / 2 powi e)" by (rule round_half_even_lower)
    then have "(of_int (2 ^ 52) :: rat) \<le> of_int (round_half_even (x / 2 powi e))"
      by (simp only: of_int_le_iff)
    then have "of_int (2 ^ 52) * (2::rat) powi e \<le> to_float x"
      unfolding fl using pe by (intro mult_right_mono) auto
    moreover have "of_int (2 ^ 52) * (2::rat) powi e = 2 powi (52 + e)"
      by (simp add: power_int_add)
    moreover have "d < 2 powi (53 + f)"
    proof -
      have "(of_int m :: rat) < of_int (2 ^ 53)" using assms(4) by (simp only: of_int_less_iff)
      then have "of_int m * (2::rat) powi f < of_int (2 ^ 53) * 2 powi f"
        by (intro mult_strict_right_mono) auto
      then show ?thesis using assms(2) by (simp add: power_int_add)
    qed
    moreover have "(2::rat) powi (53 + f) \<le> 2 powi (52 + e)"
      using e(2) by (intro power_int_increasing) auto
    ultimately show ?thesis by linarith
  qed
qed

section \<open>Facts about one synthesised record\<close>

lemma txns_length: "length (txns is g) = length is"
  by (induction "is" arbitrary: g) (auto simp: Let_def split: prod.splits)

lemma txns_nth: "k < length is \<Longrightarrow> \<exists>g'. txns is g ! k = fst (synth (is ! k) g')"
proof (induction "is" arbitrary: g k)
  case Nil
  then show ?case by simp
next
  case (Cons i "is")
  show ?case
  proof (cases k)
    case 0
    then show ?thesis by (auto simp: Let_def split: prod.splits intro: exI[of _ g])
  next
    case (Suc j)
    with Cons.prems have "j < length is" by simp
    from Cons.IH[OF this, of "snd (synth i g)"] Suc show ?thesis
      by (auto simp: Let_def split: prod.splits)
  qed
qed

lemma txns_set: "t \<in> set (txns is g) \<Longrightarrow> \<exists>i g'. i \<in> set is \<and> t = fst (synth i g')"
  by (metis in_set_conv_nth txns_length txns_nth)

lemma synth_id: "transaction_id (fst (synth i g)) = ''TXN'' @ fmt_0d 8 (int i + 1)"
  by (simp add: synth_def Let_def split: prod.splits)

lemma randint_range:
  assumes "a \<le> b" "randint a b g = (x, g')"
  shows "a \<le> x \<and> x \<le> b"
proof -
  obtain r where x: "x = a + int (r mod nat (b - a + 1))"
    using assms(2) by (auto simp: randint_def Let_def split: prod.splits)
  have "0 < nat (b - a + 1)" using assms(1) by simp
  then have "r mod nat (b - a + 1) < nat (b - a + 1)" by (rule mod_less_divisor)
  then show ?thesis using x assms(1) by linarith
qed

lemma random_range:
  assumes "random g = (u, g')"
  shows "0 \<le> u \<and> u < 1"
proof -
  define r where "r = fst (next_raw g)"
  have u: "u = of_nat (r mod 2 ^ 53) / 2 ^ 53"
    using assms unfolding r_def by (auto simp: random_def Let_def split: prod.splits)
  have "r mod 2 ^ 53 < (2 ^ 53 :: nat)" by simp
  then have "(of_nat (r mod 2 ^ 53) :: rat) < of_nat (2 ^ 53)" by (simp only: of_nat_less_iff)
  then show ?thesis using u by (simp add: divide_simps)
qed

lemma synth_quantity: "1 \<le> quantity (fst (synth i g)) \<and> quantity (fst (synth i g)) \<le> 10"
proof -
  have "\<And>x g1 g2. randint 1 10 g1 = (x, g2) \<Longrightarrow> 1 \<le> x \<and> x \<le> 10"
    using randint_range[of 1 10] by simp
  then show ?thesis
    by (simp add: synth_def Let_def split: prod.splits)
qed

lemma synth_age: "18 \<le> customer_age (fst (synth i g)) \<and> customer_age (fst (synth i g)) \<le> 80"
proof -
  have "\<And>x g1 g2. randint 18 80 g1 = (x, g2) \<Longrightarrow> 18 \<le> x \<and> x \<le> 80"
    using randint_range[of 18 80] by simp
  then show ?thesis
    by (simp add: synth_def Let_def split: prod.splits)
qed

lemma synth_total:
  "total_amount (fst (synth i g)) =
     py_round (fmul (fmul (of_int (quantity (fst (synth i g)))) (unit_price (fst (synth i g))))
                 (one_minus (discount_applied (fst (synth i g))))) 2"
  by (simp add: synth_def Let_def split: prod.splits)

subsection \<open>The unit price\<close>

lemma price_lo_val: "to_float (599 / 100) = 3372070220993659 / 562949953421312"
  by code_simp

lemma price_hi_val: "to_float (99999 / 100) = 4398002530638889 / 4398046511104"
  by code_simp

lemma price_span: "fsub (to_float (99999 / 100)) (to_float (599 / 100)) = 994"
  by code_simp

lemma price_lo_form: "to_float (599 / 100) = of_int 6744140441987318 * 2 powi (- 50)"
  by (simp add: price_lo_val)

lemma price_hi_form: "to_float (99999 / 100) = of_int 8796005061277778 * 2 powi (- 43)"
  by (simp add: price_hi_val)

lemma uniform_price_range:
  assumes "uniform (to_float (599 / 100)) (to_float (99999 / 100)) g = (x, g')"
  shows "to_float (599 / 100) \<le> x \<and> x \<le> to_float (99999 / 100)"
proof -
  obtain u g1 where r: "random g = (u, g1)"
    and x: "x = fadd (to_float (599 / 100)) (fmul 994 u)"
    using assms by (auto simp: uniform_def Let_def price_span split: prod.splits)
  from random_range[OF r] have u: "0 \<le> u" "u < 1" by auto
  define t where "t = fmul 994 u"
  have t0: "0 \<le> t" unfolding t_def fmul_def using u(1) by (intro to_float_nonneg) simp
  have t1: "t \<le> 994"
  proof (cases "u = 0")
    case True
    then show ?thesis by (simp add: t_def fmul_def to_float_def)
  next
    case False
    with u have "0 < 994 * u" "994 * u \<le> 994" by auto
    then have "to_float (994 * u) \<le> 994"
      by (rule to_float_le_double[where m = 994 and f = 0]) simp_all
    then show ?thesis by (simp add: t_def fmul_def)
  qed
  have a: "0 < to_float (599 / 100)" by (simp add: price_lo_val)
  have lo: "to_float (599 / 100) \<le> to_float (599 / 100) + t" using t0 by simp
  have hi: "to_float (599 / 100) + t \<le> to_float (99999 / 100)"
    using t1 by (simp add: price_lo_val price_hi_val)
  have "to_float (599 / 100) \<le> to_float (to_float (599 / 100) + t)"
    using lo price_lo_form by (rule double_le_to_float) simp_all
  moreover have "to_float (to_float (599 / 100) + t) \<le> to_float (99999 / 100)"
  proof (rule to_float_le_double[OF _ hi price_hi_form])
    show "0 < to_float (599 / 100) + t" using a t0 by linarith
  qed simp_all
  ultimately show ?thesis by (simp add: x fadd_def t_def)
qed

lemma cents_float_range:
  assumes "599 \<le> K" "K \<le> 99999"
  shows "to_float (599 / 100) \<le> to_float (of_int K / 100)
       \<and> to_float (of_int K / 100) \<le> to_float (99999 / 100)"
proof
  show "to_float (599 / 100) \<le> to_float (of_int K / 100)"
  proof (cases "K = 599")
    case True
    then show ?thesis by simp
  next
    case False
    with assms(1) have "600 \<le> K" by simp
    then have "(of_int 600 :: rat) \<le> of_int K" by (simp only: of_int_le_iff)
    then have "to_float (599 / 100) \<le> of_int K / 100" by (simp add: price_lo_val)
    then show ?thesis using price_lo_form by (rule double_le_to_float) simp_all
  qed
  show "to_float (of_int K / 100) \<le> to_float (99999 / 100)"
  proof (cases "K = 99999")
    case True
    then show ?thesis by simp
  next
    case False
    with assms(2) have "K \<le> 99998" by simp
    then have "(of_int K :: rat) \<le> of_int 99998" by (simp only: of_int_le_iff)
    then have le: "of_int K / 100 \<le> to_float (99999 / 100)" by (simp add: price_hi_val)
    have "(of_int 599 :: rat) \<le> of_int K" using assms(1) by (simp only: of_int_le_iff)
    then have pos: "(0::rat) < of_int K / 100" by simp
    show ?thesis using pos le price_hi_form by (rule to_float_le_double) simp_all
  qed
qed

lemma py_round_cents:
  assumes "to_float (599 / 100) \<le> x" "x \<le> to_float (99999 / 100)"
  shows "599 \<le> round_half_even (x * 10 ^ 2) \<and> round_half_even (x * 10 ^ 2) \<le> 99999"
proof
  have "of_int 599 \<le> x * 10 ^ 2" using assms(1) by (simp add: price_lo_val)
  then show "599 \<le> round_half_even (x * 10 ^ 2)" by (rule round_half_even_lower)
  have "x * 10 ^ 2 < of_int 99999 + 1 / 2" using assms(2) by (simp add: price_hi_val)
  then show "round_half_even (x * 10 ^ 2) \<le> 99999" by (rule round_half_even_below_half)
qed

lemma synth_price:
  "\<exists>K. 599 \<le> K \<and> K \<le> 99999
     \<and> unit_price (fst (synth i g)) = to_float (of_int K / 100)
     \<and> to_float (599 / 100) \<le> unit_price (fst (synth i g))
     \<and> unit_price (fst (synth i g)) \<le> to_float (99999 / 100)"
proof -
  have "\<exists>K. 599 \<le> K \<and> K \<le> 99999 \<and> py_round x 2 = to_float (of_int K / 100)
          \<and> to_float (599 / 100) \<le> py_round x 2 \<and> py_round x 2 \<le> to_float (99999 / 100)"
    if "uniform (to_float (599 / 100)) (to_float (99999 / 100)) g1 = (x, g2)" for x g1 g2
  proof -
    from uniform_price_range[OF that]
    have k: "599 \<le> round_half_even (x * 10 ^ 2)" "round_half_even (x * 10 ^ 2) \<le> 99999"
      using py_round_cents by auto
    from cents_float_range[OF k] show ?thesis
      unfolding py_round_def using k by (intro exI[of _ "round_half_even (x * 10 ^ 2)"]) simp
  qed
  then show ?thesis
    by (simp add: synth_def Let_def split: prod.splits)
qed

lemma synth_discount: "discount_applied (fst (synth i g)) = discounts ! (g 8 mod 7)"
proof -
  have e: "g 8 = g (Suc (Suc (Suc (Suc (Suc (Suc (Suc (Suc 0))))))))"
    by (simp add: eval_nat_numeral)
  show ?thesis
    by (simp add: synth_def Let_def randint_def uniform_def random_def choice_def next_raw_def
        discounts_def categories_def e split: prod.splits)
qed

section \<open>What a call leaves behind\<close>

lemma outcome_writable:
  assumes "writable w fn"
  shows "fst (generate_large_csv fn n g w) =
           (if 1 \<le> n \<and> n \<le> 19 then Raised ZeroDivisionError else Returned)"
proof -
  consider "n \<le> 0" | "1 \<le> n \<and> n \<le> 19" | "20 \<le> n" by linarith
  then show ?thesis
  proof cases
    case 1
    then show ?thesis using generate_nonpos[OF assms, of n g] by simp
  next
    case 2
    then show ?thesis using generate_small[OF assms, of n g] by simp
  next
    case 3
    then show ?thesis using generate_large[OF assms, of n g] by simp
  qed
qed

lemma sink_after_writable:
  assumes "writable w fn"
  shows "sink_after fn n g w = Some (map Str headers # map row_cells (txns (rows_done n) g))"
proof -
  consider "n \<le> 0" | "1 \<le> n \<and> n \<le> 19" | "20 \<le> n" by linarith
  then show ?thesis
  proof cases
    case 1
    then show ?thesis
      using generate_nonpos[OF assms, of n g] by (simp add: sink_after_def rows_done_def)
  next
    case 2
    then show ?thesis
      using generate_small[OF assms, of n g]
      by (simp add: sink_after_def rows_done_def Let_def split: prod.splits)
  next
    case 3
    then show ?thesis
      using generate_large[OF assms, of n g] by (simp add: sink_after_def rows_done_def)
  qed
qed

lemma data_rows_writable:
  "writable w fn \<Longrightarrow> data_rows fn n g w = map row_cells (txns (rows_done n) g)"
  by (simp add: data_rows_def sink_after_writable)

lemma data_row_synth:
  assumes "writable w fn" "r \<in> set (data_rows fn n g w)"
  shows "\<exists>i g'. r = row_cells (fst (synth i g'))"
proof -
  from assms obtain t where "t \<in> set (txns (rows_done n) g)" "r = row_cells t"
    by (auto simp: data_rows_writable)
  then show ?thesis using txns_set by blast
qed

lemma columns_aligned:
  "map (map_of (named_fields t)) headers = map Some (row_cells t)"
  by (simp add: named_fields_def headers_def row_cells_def)

lemma fresh_writable: "writable fresh_world fn"
  by (simp add: fresh_world_def)

lemma floor_rat_numeral: "\<lfloor>numeral a / numeral b :: rat\<rfloor> = numeral a div numeral b"
  using floor_divide_of_int_eq[of "numeral a" "numeral b", where ?'a = rat] by simp

lemma replicate_numeral: "replicate (numeral k) x = x # replicate (pred_numeral k) x"
  by (simp add: numeral_eq_Suc)

lemma dec_small: "dec (Suc 0) = ''1''" "dec 25 = ''25''" "dec 32 = ''32''"
  by (simp_all add: dec.simps digit_char_def)

lemma synth_draws:
  assumes "of_nat (g 13 mod 2 ^ 53) / 2 ^ 53 \<le> to_float (1 / 10)"
  shows "row_cells (fst (synth i g)) =
    [Str (''TXN'' @ fmt_0d 8 (int i + 1)),
     Stamp (int (g 0 mod 1096)) (int (g 1 mod 24)) (int (g 2 mod 60)),
     Str (''CUST'' @ fmt_0d 6 (1 + int (g 3 mod 50000))),
     Str (''PROD'' @ fmt_0d 5 (1 + int (g 4 mod 5000))),
     Str (categories ! (g 5 mod 8)),
     Num (1 + int (g 6 mod 10)),
     Flt (py_round (fadd (to_float (599 / 100))
            (fmul (fsub (to_float (99999 / 100)) (to_float (599 / 100)))
               (of_nat (g 7 mod 2 ^ 53) / 2 ^ 53))) 2),
     Flt (py_round (fmul (fmul (of_int (1 + int (g 6 mod 10)))
            (py_round (fadd (to_float (599 / 100))
               (fmul (fsub (to_float (99999 / 100)) (to_float (599 / 100)))
                  (of_nat (g 7 mod 2 ^ 53) / 2 ^ 53))) 2))
            (one_minus (discounts ! (g 8 mod 7)))) 2),
     Str (payment_methods ! (g 9 mod 5)),
     Str (locations ! (g 10 mod 6)),
     discounts ! (g 8 mod 7),
     Num (18 + int (g 11 mod 63)),
     Str (segments ! (g 12 mod 4)),
     Str '''',
     Str (returned_choices ! (g 14 mod 5))]"
proof -
  have e: "g 1 = g (Suc 0)" "g 2 = g (Suc (Suc 0))" "g 3 = g (Suc (Suc (Suc 0)))"
    "g 4 = g (Suc (Suc (Suc (Suc 0))))" "g 5 = g (Suc (Suc (Suc (Suc (Suc 0)))))"
    "g 6 = g (Suc (Suc (Suc (Suc (Suc (Suc 0))))))"
    "g 7 = g (Suc (Suc (Suc (Suc (Suc (Suc (Suc 0)))))))"
    "g 8 = g (Suc (Suc (Suc (Suc (Suc (Suc (Suc (Suc 0))))))))"
    "g 9 = g (Suc (Suc (Suc (Suc (Suc (Suc (Suc (Suc (Suc 0)))))))))"
    "g 10 = g (Suc (Suc (Suc (Suc (Suc (Suc (Suc (Suc (Suc (Suc 0))))))))))"
    "g 11 = g (Suc (Suc (Suc (Suc (Suc (Suc (Suc (Suc (Suc (Suc (Suc 0)))))))))))"
    "g 12 = g (Suc (Suc (Suc (Suc (Suc (Suc (Suc (Suc (Suc (Suc (Suc (Suc 0))))))))))))"
    "g 13 = g (Suc (Suc (Suc (Suc (Suc (Suc (Suc (Suc (Suc (Suc (Suc (Suc (Suc 0)))))))))))))"
    "g 14 = g (Suc (Suc (Suc (Suc (Suc (Suc (Suc (Suc (Suc (Suc (Suc (Suc (Suc (Suc 0))))))))))))))"
    by (simp_all add: eval_nat_numeral)
  have c: "\<not> to_float (1 / 10)
      < of_nat (g (Suc (Suc (Suc (Suc (Suc (Suc (Suc (Suc (Suc (Suc (Suc (Suc (Suc 0)))))))))))))
           mod 2 ^ 53) / 2 ^ 53"
    using assms unfolding e by (simp only: not_less)
  show ?thesis
    unfolding e
    using c
    by (simp add: synth_def row_cells_def Let_def randint_def choice_def uniform_def random_def
        next_raw_def draw_rating_def categories_def payment_methods_def locations_def
        segments_def returned_choices_def discounts_def split: prod.splits)
qed


lemma demo_draws:
  "of_nat (demo_rng 13 mod 2 ^ 53) / 2 ^ 53 = (94 / 2 ^ 53 :: rat)"
  "of_nat (demo_rng 7 mod 2 ^ 53) / 2 ^ 53 = (52 / 2 ^ 53 :: rat)"
  "of_int (1 + int (demo_rng 6 mod 10)) = (6 :: rat)"
  "discounts ! (demo_rng 8 mod 7) = Flt (to_float (1 / 10))"
  by (simp_all add: demo_rng_def discounts_def)

lemma demo_rating_gate: "of_nat (demo_rng 13 mod 2 ^ 53) / 2 ^ 53 \<le> to_float (1 / 10)"
proof -
  have "(94 / 2 ^ 53 :: rat) \<le> to_float (1 / 10)" by code_simp
  then show ?thesis by (simp only: demo_draws)
qed

lemma demo_price:
  "py_round (fadd (to_float (599 / 100))
      (fmul (fsub (to_float (99999 / 100)) (to_float (599 / 100))) (52 / 2 ^ 53))) 2
   = to_float (599 / 100)"
  by code_simp

lemma demo_total:
  "py_round (fmul (fmul 6 (to_float (599 / 100))) (one_minus (Flt (to_float (1 / 10))))) 2
   = to_float (3235 / 100)"
  by code_simp

lemma demo_row:
  "row_cells (fst (synth 0 demo_rng)) =
    [Str ''TXN00000001'', Stamp 3 10 17, Str ''CUST000025'', Str ''PROD00032'',
     Str ''Toys'', Num 6, Flt (to_float (599 / 100)), Flt (to_float (3235 / 100)),
     Str ''Debit Card'', Str ''Los Angeles'', Flt (to_float (1 / 10)), Num 35,
     Str ''Platinum'', Str [], Str ''No'']"
  unfolding synth_draws[of demo_rng 0, OF demo_rating_gate] demo_draws demo_price demo_total
  by (simp add: demo_rng_def fmt_0d_def zero_pad_def dec_small replicate_numeral
      categories_def payment_methods_def locations_def segments_def
      returned_choices_def)


lemma rows_done_small: "1 \<le> n \<Longrightarrow> n \<le> 19 \<Longrightarrow> txns (rows_done n) g = [fst (synth 0 g)]"
  by (simp add: rows_done_def Let_def split: prod.splits)

lemma demo_data_rows:
  "data_rows ''out.csv'' 5 demo_rng fresh_world = [row_cells (fst (synth 0 demo_rng))]"
  by (simp add: data_rows_writable fresh_writable rows_done_small)

lemma row_cells_nth:
  "row_cells t ! 0 = Str (transaction_id t)"
  "row_cells t ! 5 = Num (quantity t)"
  "row_cells t ! 6 = Flt (unit_price t)"
  "row_cells t ! 7 = Flt (total_amount t)"
  "row_cells t ! 10 = discount_applied t"
  "row_cells t ! 11 = Num (customer_age t)"
  by (simp_all add: row_cells_def)

lemma discounts_nth_mem: "discounts ! (k mod 7) \<in> set discounts"
proof -
  have "k mod 7 < length discounts" by (simp add: discounts_def)
  then show ?thesis by (rule nth_mem)
qed

lemma returned_writable: "fst (generate_large_csv fn n g w) = Returned \<Longrightarrow> writable w fn"
  by (rule ccontr) (simp add: generate_unwritable)

lemma run_completes_iff:
  "writable w fn \<Longrightarrow> 0 < n \<Longrightarrow> fst (generate_large_csv fn n g w) = Returned \<longleftrightarrow> 20 \<le> n"
  by (auto simp: outcome_writable)

lemma txns_upt_nth:
  assumes "k < m"
  shows "\<exists>g'. txns [0..<m] g ! k = fst (synth k g')"
  using txns_nth[of k "[0..<m]" g] assms by simp

lemma data_rows_large:
  "writable w fn \<Longrightarrow> 20 \<le> n \<Longrightarrow> data_rows fn n g w = map row_cells (txns [0..<nat n] g)"
  by (simp add: data_rows_writable rows_done_def)

lemma dec_20: "dec 20 = ''20''"
  by (simp add: dec.simps digit_char_def)

lemma txns_Cons: "txns (i # is) g = fst (synth i g) # txns is (snd (synth i g))"
  by (simp add: Let_def split: prod.splits)

lemma first_data_row:
  assumes "writable w fn" "1 \<le> n"
  shows "row_cells (fst (synth 0 g)) \<in> set (data_rows fn n g w)"
proof -
  from assms(2) obtain m where m: "nat n = Suc m" by (cases "nat n") auto
  then have "[0..<nat n] = 0 # [1..<nat n]" by (simp add: upt_conv_Cons)
  then have "\<exists>rest. rows_done n = 0 # rest" using assms(2) by (simp add: rows_done_def)
  then obtain rest where "rows_done n = 0 # rest" by blast
  then show ?thesis using assms(1)
    by (simp add: data_rows_writable txns_Cons del: txns.simps)
qed

section \<open>Identifiers\<close>

lemma digit_val_digit_char: "d < 10 \<Longrightarrow> digit_val (digit_char d) = d"
proof -
  assume "d < 10"
  then have "d = 0 \<or> d = 1 \<or> d = 2 \<or> d = 3 \<or> d = 4 \<or> d = 5 \<or> d = 6 \<or> d = 7
    \<or> d = 8 \<or> d = 9" by arith
  then show ?thesis by (elim disjE) (simp_all add: digit_val_def digit_char_def)
qed

lemma num_of_snoc: "num_of (s @ [c]) = 10 * num_of s + digit_val c"
  by (simp add: num_of_def)

lemma num_of_dec: "num_of (dec n) = n"
proof (induction n rule: dec.induct)
  case (1 n)
  show ?case
  proof (cases "n < 10")
    case True
    then show ?thesis
      by (subst dec.simps) (simp add: num_of_def digit_val_digit_char)
  next
    case False
    with "1" have "num_of (dec (n div 10)) = n div 10" by simp
    with False show ?thesis
      by (subst dec.simps) (simp add: num_of_snoc digit_val_digit_char)
  qed
qed

lemma num_of_zeros: "num_of (replicate k (CHR ''0'') @ s) = num_of s"
proof -
  have "foldl (\<lambda>a c. 10 * a + digit_val c) 0 (replicate k (CHR ''0'')) = 0"
    by (induction k) (simp_all add: digit_val_def)
  then show ?thesis by (simp add: num_of_def)
qed

lemma num_of_fmt: "0 \<le> n \<Longrightarrow> num_of (fmt_0d w n) = nat n"
  by (simp add: fmt_0d_def zero_pad_def num_of_zeros num_of_dec)

lemma txn_number_id: "txn_number (Str (''TXN'' @ fmt_0d 8 (int k + 1))) = k + 1"
  by (simp add: num_of_fmt)

lemma rows_done_nth: "k < length (rows_done n) \<Longrightarrow> rows_done n ! k = k"
  by (auto simp: rows_done_def split: if_splits)

lemma data_row_id:
  assumes "writable w fn" "k < length (data_rows fn n g w)"
  shows "data_rows fn n g w ! k ! 0 = Str (''TXN'' @ fmt_0d 8 (int k + 1))"
proof -
  from assms have k: "k < length (rows_done n)" by (simp add: data_rows_writable txns_length)
  from txns_nth[OF k, of g] obtain g' where "txns (rows_done n) g ! k = fst (synth k g')"
    by (auto simp: rows_done_nth[OF k])
  then show ?thesis using assms k
    by (simp add: data_rows_writable txns_length row_cells_nth synth_id)
qed

subsection \<open>Character order of identifiers\<close>

lemma digit_code: "is_digit c \<Longrightarrow> of_char c = (48::nat) + digit_val c \<and> digit_val c < 10"
  by (auto simp: is_digit_def digit_val_def)

lemma digit_less: "is_digit a \<Longrightarrow> is_digit b \<Longrightarrow> digit_val a < digit_val b \<Longrightarrow> a < b"
  using digit_code[of a] digit_code[of b] by (simp add: less_char_def)

lemma digit_eq: "is_digit a \<Longrightarrow> is_digit b \<Longrightarrow> digit_val a = digit_val b \<Longrightarrow> a = b"
proof -
  assume "is_digit a" "is_digit b" "digit_val a = digit_val b"
  then have "(of_char a :: nat) = of_char b" using digit_code[of a] digit_code[of b] by simp
  then show "a = b" by (simp only: of_char_eq_iff)
qed

lemma foldl_shift:
  "foldl (\<lambda>a c. 10 * a + digit_val c) a s =
     a * 10 ^ length s + foldl (\<lambda>a c. 10 * a + digit_val c) 0 s"
proof (induction s arbitrary: a)
  case Nil
  then show ?case by simp
next
  case (Cons c s)
  show ?case
    using Cons.IH[of "10 * a + digit_val c"] Cons.IH[of "digit_val c"]
    by (simp add: algebra_simps)
qed

lemma num_of_Cons: "num_of (c # s) = digit_val c * 10 ^ length s + num_of s"
  using foldl_shift[of "digit_val c" s] by (simp add: num_of_def)

lemma num_of_bound: "\<forall>c \<in> set s. is_digit c \<Longrightarrow> num_of s < 10 ^ length s"
proof (induction s)
  case Nil
  then show ?case by (simp add: num_of_def)
next
  case (Cons c s)
  then have "num_of s < 10 ^ length s" "digit_val c < 10" using digit_code[of c] by auto
  then have "digit_val c * 10 ^ length s + num_of s < (digit_val c + 1) * 10 ^ length s"
    by simp
  also have "\<dots> \<le> 10 * 10 ^ length s"
    using \<open>digit_val c < 10\<close> by (intro mult_right_mono) auto
  finally show ?case by (simp add: num_of_Cons)
qed

lemma digits_lex:
  assumes "length s = length t" "\<forall>c \<in> set s. is_digit c" "\<forall>c \<in> set t. is_digit c"
    and "num_of s < num_of t"
  shows "s < t"
  using assms
proof (induction s t rule: list_induct2)
  case Nil
  then show ?case by simp
next
  case (Cons a s b t)
  let ?P = "(10::nat) ^ length s"
  from Cons.prems have da: "is_digit a" and db: "is_digit b"
    and ds: "\<forall>c \<in> set s. is_digit c" and dt: "\<forall>c \<in> set t. is_digit c" by auto
  have bs: "num_of s < ?P" using ds by (rule num_of_bound)
  have bt: "num_of t < ?P" using num_of_bound[OF dt] Cons.hyps by simp
  from Cons.prems(3) Cons.hyps
  have lt: "digit_val a * ?P + num_of s < digit_val b * ?P + num_of t"
    by (simp add: num_of_Cons)
  consider "digit_val a < digit_val b" | "digit_val a = digit_val b" | "digit_val b < digit_val a"
    by linarith
  then show ?case
  proof cases
    case 1
    then have "a < b" using da db by (simp add: digit_less)
    then show ?thesis by simp
  next
    case 2
    then have "a = b" using da db by (simp add: digit_eq)
    moreover from 2 lt have "num_of s < num_of t" by simp
    then have "s < t" using Cons.IH ds dt by simp
    ultimately show ?thesis by simp
  next
    case 3
    then have "(digit_val b + 1) * ?P \<le> digit_val a * ?P" by (intro mult_right_mono) auto
    then have "digit_val b * ?P + num_of t < digit_val a * ?P + num_of s" using bt by simp
    with lt show ?thesis by simp
  qed
qed

lemma digit_char_is_digit: "d < 10 \<Longrightarrow> is_digit (digit_char d)"
  unfolding is_digit_def digit_char_def by (rule nth_mem) simp

lemma dec_digits: "\<forall>c \<in> set (dec n). is_digit c"
proof (induction n rule: dec.induct)
  case (1 n)
  show ?case
  proof (cases "n < 10")
    case True
    then show ?thesis by (subst dec.simps) (simp add: digit_char_is_digit)
  next
    case False
    with "1" have "\<forall>c \<in> set (dec (n div 10)). is_digit c" by simp
    with False show ?thesis by (subst dec.simps) (simp add: digit_char_is_digit)
  qed
qed

lemma length_dec: "0 < k \<Longrightarrow> n < 10 ^ k \<Longrightarrow> length (dec n) \<le> k"
proof (induction n arbitrary: k rule: dec.induct)
  case (1 n)
  show ?case
  proof (cases "n < 10")
    case True
    with "1.prems" show ?thesis by (subst dec.simps) simp
  next
    case False
    with "1.prems" obtain j where k: "k = Suc j" by (cases k) auto
    with False "1.prems" have j: "0 < j" by (cases j) auto
    from "1.prems" k have "n div 10 < 10 ^ j" by (simp add: less_mult_imp_div_less)
    with "1.IH"[OF False j] have "length (dec (n div 10)) \<le> j" by simp
    with False k show ?thesis by (subst dec.simps) simp
  qed
qed

lemma zero_pad_digits: "\<forall>c \<in> set (zero_pad w (dec n)). is_digit c"
proof -
  have "is_digit (CHR ''0'')" by (simp add: is_digit_def)
  then show ?thesis using dec_digits[of n] by (auto simp: zero_pad_def)
qed

lemma zero_pad_length: "n < 10 ^ 8 \<Longrightarrow> length (zero_pad 8 (dec n)) = 8"
  using length_dec[of 8 n] by (simp add: zero_pad_def)

lemma fmt_0d_lex:
  assumes "0 \<le> a" "a < b" "b < 100000000"
  shows "fmt_0d 8 a < fmt_0d 8 b"
proof -
  from assms have la: "length (zero_pad 8 (dec (nat a))) = 8"
    and lb: "length (zero_pad 8 (dec (nat b))) = 8"
    by (auto intro!: zero_pad_length)
  have "num_of (zero_pad 8 (dec (nat a))) < num_of (zero_pad 8 (dec (nat b)))"
    using assms by (simp add: zero_pad_def num_of_zeros num_of_dec)
  then have "zero_pad 8 (dec (nat a)) < zero_pad 8 (dec (nat b))"
    using la lb zero_pad_digits by (intro digits_lex) auto
  then show ?thesis using assms by (simp add: fmt_0d_def)
qed

lemma txn_ids_string_order:
  assumes "0 \<le> a" "a < b" "b < 100000000"
  shows "''TXN'' @ fmt_0d 8 a < ''TXN'' @ fmt_0d 8 b"
  using fmt_0d_lex[OF assms] by simp


lemma txn_ids_width_grows:
  "''TXN'' @ fmt_0d 8 100000000 < ''TXN'' @ fmt_0d 8 99999999"
  by (simp add: fmt_0d_def zero_pad_def dec.simps digit_char_def less_char_def)

lemma data_rows_string_order:
  assumes "writable w fn" "j < k" "k < length (data_rows fn n g w)" "k < 99999999"
  shows "\<exists>s t. data_rows fn n g w ! j ! 0 = Str s \<and> data_rows fn n g w ! k ! 0 = Str t \<and> s < t"
proof -
  from assms have j: "j < length (data_rows fn n g w)" by simp
  have "''TXN'' @ fmt_0d 8 (int j + 1) < ''TXN'' @ fmt_0d 8 (int k + 1)"
    using assms by (intro txn_ids_string_order) auto
  then show ?thesis
    using data_row_id[OF assms(1) j] data_row_id[OF assms(1,3)] by blast
qed

lemma data_rows_length_large:
  "writable w fn \<Longrightarrow> 20 \<le> n \<Longrightarrow> length (data_rows fn n g w) = nat n"
  by (simp add: data_rows_large txns_length)

section \<open>The progress lines\<close>

lemma progress_counts_append:
  "progress_counts (xs @ ys) = progress_counts xs @ progress_counts ys"
  by (induction xs rule: progress_counts.induct) auto

lemma progress_counts_loop:
  "progress_counts (concat (map (progress_events n iv) is)) =
     filter (\<lambda>r. r mod iv = 0) (map (\<lambda>i. int i + 1) is)"
  by (induction "is") (auto simp: progress_counts_append progress_events_def)

lemma flushed_append: "flushed xs \<Longrightarrow> flushed ys \<Longrightarrow> flushed (xs @ ys)"
  by (induction xs rule: flushed.induct) (auto split: list.splits out_event.splits)

lemma flushed_loop: "flushed (concat (map (progress_events n iv) is))"
  by (induction "is") (auto simp: flushed_append progress_events_def)

lemma progress_pct_loop:
  "Progress p r \<in> set (concat (map (progress_events n iv) is))
     \<Longrightarrow> p = fmul (fdiv (of_int r) (of_int n)) 100"
  by (induction "is") (auto simp: progress_events_def split: if_splits)

lemma emitted_large:
  assumes "writable w fn" "20 \<le> n"
  shows "emitted fn n g w =
     [Generating n] @ concat (map (progress_events n (n div 20)) [0..<nat n])
       @ [Generated fn, FileSize fn, Columns 15, Rows n]"
  using generate_large[OF assms, of g] by (simp add: emitted_def)

lemma row_numbers: "set (map (\<lambda>i. int i + 1) [0..<nat n]) = {r. 1 \<le> r \<and> r \<le> n}"
proof (intro set_eqI iffI)
  fix r assume "r \<in> set (map (\<lambda>i. int i + 1) [0..<nat n])"
  then show "r \<in> {r. 1 \<le> r \<and> r \<le> n}" by auto
next
  fix r assume "r \<in> {r. 1 \<le> r \<and> r \<le> n}"
  then have "nat (r - 1) < nat n" "int (nat (r - 1)) + 1 = r" by auto
  then show "r \<in> set (map (\<lambda>i. int i + 1) [0..<nat n])"
    by (metis (mono_tags, lifting) atLeast0LessThan image_eqI lessThan_iff list.set_map set_upt)
qed

lemma crosses_multiple:
  assumes "0 < m"
  shows "crosses_boundary (20 * m) r \<longleftrightarrow> 1 \<le> r \<and> r \<le> 20 * m \<and> r mod m = 0"
proof
  assume "crosses_boundary (20 * m) r"
  then obtain k where k: "1 \<le> k" "k \<le> 20" "(r - 1) * 20 < k * (20 * m)" "k * (20 * m) \<le> r * 20"
    by (auto simp: crosses_boundary_def)
  then have "r - 1 < k * m" "k * m \<le> r" by auto
  then have r: "r = k * m" by linarith
  have "0 < k * m" using k(1) assms by (simp add: zero_less_mult_iff)
  then have km1: "1 \<le> k * m" by linarith
  have km2: "k * m \<le> 20 * m" using mult_right_mono[of k 20 m] k(2) assms by simp
  from km1 km2 assms show "1 \<le> r \<and> r \<le> 20 * m \<and> r mod m = 0" unfolding r by simp
next
  assume a: "1 \<le> r \<and> r \<le> 20 * m \<and> r mod m = 0"
  then obtain k where r: "r = m * k" by (auto simp: mod_eq_0_iff_dvd)
  with a assms have "0 < k" by (metis less_le_trans zero_less_mult_pos zero_less_one)
  moreover from a r assms have "k \<le> 20" by auto
  ultimately have "k \<in> {1..20}" by auto
  moreover have "(r - 1) * 20 < k * (20 * m) \<and> k * (20 * m) \<le> r * 20" using r by simp
  ultimately show "crosses_boundary (20 * m) r" unfolding crosses_boundary_def by blast
qed

lemma progress_counts_large:
  assumes "writable w fn" "20 \<le> n"
  shows "progress_counts (emitted fn n g w) =
           filter (\<lambda>r. r mod (n div 20) = 0) (map (\<lambda>i. int i + 1) [0..<nat n])"
  by (simp add: emitted_large[OF assms] progress_counts_append progress_counts_loop)

lemma progress_set_large:
  assumes "writable w fn" "20 \<le> n"
  shows "set (progress_counts (emitted fn n g w)) = {r. 1 \<le> r \<and> r \<le> n \<and> r mod (n div 20) = 0}"
  unfolding progress_counts_large[OF assms] set_filter row_numbers by auto

section \<open>Float rounding at decimal ties\<close>

text \<open>
  The exact product \<open>6 * 5.99 * 0.75 = 26.955\<close> lies half-way between two cent values
  and would round to \<open>26.96\<close>; the float product lies just below it, and the code
  writes \<open>26.95\<close>. Likewise the float \<^verbatim>\<open>68.115\<close> rounds to \<open>68.11\<close>.
\<close>

lemma total_amount_tie:
  "py_round (fmul (fmul 6 (to_float (599 / 100))) (one_minus (Flt (to_float (25 / 100))))) 2
   = to_float (2695 / 100)"
  by code_simp

lemma exact_product_tie: "round_half_even (6 * (599 / 100) * (1 - 25 / 100) * 10 ^ 2) = 2696"
  by code_simp

lemma unit_price_tie: "py_round (to_float (68115 / 1000)) 2 = to_float (6811 / 100)"
  by code_simp

lemma progress_value: "fmul (fdiv 3 50) 100 = 6"
  by code_simp

section \<open>The claims\<close>

text \<open>
  C1 (amended). Whenever the output file can be opened, the first row written is the
  header, and it lists the 15 field names in the order of lines 16-21:
  \<^verbatim>\<open>total_amount\<close> is the eighth column and \<^verbatim>\<open>discount_applied\<close> the eleventh (the
  data model table of the specification has them at the eighth and ninth place).
  Every later row is \<open>row_cells\<close> of a synthesised record, and \<open>row_cells\<close> puts under
  each header name the value of the variable of that name.
\<close>

theorem header_and_columns:
  assumes "writable w fn"
  shows "sink_after fn n g w = Some (map Str headers # map row_cells (txns (rows_done n) g))
       \<and> headers =
           [''transaction_id'', ''timestamp'', ''customer_id'', ''product_id'',
            ''category'', ''quantity'', ''unit_price'', ''total_amount'',
            ''payment_method'', ''store_location'', ''discount_applied'',
            ''customer_age'', ''customer_segment'', ''rating'', ''returned'']
       \<and> length headers = 15
       \<and> (\<forall>t. map (map_of (named_fields t)) headers = map Some (row_cells t))"
  using sink_after_writable[OF assms, of n g] columns_aligned
  by (simp add: headers_def)

theorem header_and_columns_witness:
  "writable fresh_world ''out.csv''
   \<and> sink_after ''out.csv'' 5 demo_rng fresh_world =
       Some [map Str [''transaction_id'', ''timestamp'', ''customer_id'', ''product_id'',
            ''category'', ''quantity'', ''unit_price'', ''total_amount'',
            ''payment_method'', ''store_location'', ''discount_applied'',
            ''customer_age'', ''customer_segment'', ''rating'', ''returned''],
         [Str ''TXN00000001'', Stamp 3 10 17, Str ''CUST000025'', Str ''PROD00032'',
          Str ''Toys'', Num 6, Flt (to_float (599 / 100)), Flt (to_float (3235 / 100)), Str ''Debit Card'',
          Str ''Los Angeles'', Flt (to_float (1 / 10)), Num 35, Str ''Platinum'', Str [], Str ''No'']]"
proof -
  have w: "writable fresh_world ''out.csv''" by (rule fresh_writable)
  have "txns (rows_done 5) demo_rng = [fst (synth 0 demo_rng)]" by (simp add: rows_done_small)
  with header_and_columns[OF w, of 5 demo_rng] demo_row w show ?thesis by simp
qed

text \<open>
  C1 as stated fails: the header of a run is not the column list of the
  specification's data model table.
\<close>

theorem header_order_counterexample:
  "map_option hd (sink_after ''out.csv'' 20 demo_rng fresh_world) \<noteq> Some (map Str spec_columns)"
  by (simp add: sink_after_writable fresh_writable headers_def spec_columns_def)

text \<open>
  C2. Line 50 draws the discount with \<^verbatim>\<open>random.choice\<close> from a list of seven
  candidates, \<^verbatim>\<open>[0, 0, 0, 0.1, 0.15, 0.2, 0.25]\<close>, one raw draw reduced modulo 7 picking
  the position. Three of the seven candidates are zero, fewer than half, where the
  comment of that line reads \<^verbatim>\<open>Most have no discount\<close>. The first row of the
  demonstration run is one of the rows with a discount.
\<close>

theorem discount_zeros_minority:
  "discount_applied (fst (synth i g)) = discounts ! (g 8 mod 7)
   \<and> length discounts = 7
   \<and> length (filter (\<lambda>d. num_val d = 0) discounts) = 3
   \<and> 2 * length (filter (\<lambda>d. num_val d = 0) discounts) < length discounts
   \<and> discount_applied (fst (synth 0 demo_rng)) = Flt (to_float (1 / 10))"
proof -
  have z: "length (filter (\<lambda>d. num_val d = 0) discounts) = 3" by code_simp
  have l: "length discounts = 7" by (simp add: discounts_def)
  have d: "discounts ! (demo_rng 8 mod 7) = Flt (to_float (1 / 10))" by (rule demo_draws)
  show ?thesis using z l d by (simp add: synth_discount)
qed

text \<open>
  C3 (amended). With a row count of zero (or a negative one) and a file that can be
  opened, \<open>generate_large_csv\<close> returns normally: \<open>0 // 20\<close> divides by twenty, the
  loop body with the modulo never runs, the file holds the header row alone and the
  standard output gets the opening line and the four closing lines. No arithmetic
  error is raised.
\<close>

theorem zero_rows_completes:
  assumes "writable w fn" "n \<le> 0"
  shows "fst (generate_large_csv fn n g w) = Returned
       \<and> sink_after fn n g w = Some [map Str headers]
       \<and> emitted fn n g w = [Generating n, Generated fn, FileSize fn, Columns 15, Rows n]"
  using generate_nonpos[OF assms, of g]
  by (simp add: sink_after_def emitted_def)

theorem zero_rows_completes_witness:
  "writable fresh_world ''out.csv'' \<and> (0::int) \<le> 0
   \<and> fst (generate_large_csv ''out.csv'' 0 demo_rng fresh_world) = Returned
   \<and> sink_after ''out.csv'' 0 demo_rng fresh_world = Some [map Str headers]
   \<and> emitted ''out.csv'' 0 demo_rng fresh_world =
        [Generating 0, Generated ''out.csv'', FileSize ''out.csv'', Columns 15, Rows 0]"
  using zero_rows_completes[of fresh_world "''out.csv''" 0 demo_rng]
  by (simp add: fresh_world_def)

text \<open>
  C3 as stated fails: the call with a row count of zero does not raise
  \<open>ZeroDivisionError\<close>.
\<close>

theorem zero_rows_counterexample:
  "fst (generate_large_csv ''out.csv'' 0 demo_rng fresh_world) \<noteq> Raised ZeroDivisionError"
  by (simp add: generate_large_csv_def fresh_world_def Let_def)

text \<open>
  C4 (amended). For a row count from 1 to 19 the progress interval is zero, and the
  first iteration raises \<open>ZeroDivisionError\<close> at the modulo of line 68. That line comes
  after the \<^verbatim>\<open>writerow\<close> of lines 60-65, so the file left behind holds the header and
  one data row, the one with identifier \<^verbatim>\<open>TXN00000001\<close>; only the opening line has
  been printed.
\<close>

theorem few_rows_fault:
  assumes "writable w fn" "1 \<le> n" "n \<le> 19"
  shows "fst (generate_large_csv fn n g w) = Raised ZeroDivisionError
       \<and> sink_after fn n g w = Some [map Str headers, row_cells (fst (synth 0 g))]
       \<and> transaction_id (fst (synth 0 g)) = ''TXN00000001''
       \<and> emitted fn n g w = [Generating n]"
proof -
  have "fmt_0d 8 1 = ''00000001''"
    by (simp add: fmt_0d_def zero_pad_def dec_small replicate_numeral)
  then have "transaction_id (fst (synth 0 g)) = ''TXN00000001''"
    using synth_id[of 0 g] by simp
  then show ?thesis
    using generate_small[OF assms, of g] by (simp add: sink_after_def emitted_def)
qed

theorem few_rows_fault_witness:
  "writable fresh_world ''out.csv'' \<and> (1::int) \<le> 5 \<and> (5::int) \<le> 19
   \<and> fst (generate_large_csv ''out.csv'' 5 demo_rng fresh_world) = Raised ZeroDivisionError
   \<and> sink_after ''out.csv'' 5 demo_rng fresh_world =
       Some [map Str headers,
         [Str ''TXN00000001'', Stamp 3 10 17, Str ''CUST000025'', Str ''PROD00032'',
          Str ''Toys'', Num 6, Flt (to_float (599 / 100)), Flt (to_float (3235 / 100)), Str ''Debit Card'',
          Str ''Los Angeles'', Flt (to_float (1 / 10)), Num 35, Str ''Platinum'', Str [], Str ''No'']]"
  using few_rows_fault[of fresh_world "''out.csv''" 5 demo_rng] demo_row
  by (simp add: fresh_world_def)

text \<open>
  C4 as stated fails: after the fault the file is not the header alone.
\<close>

theorem few_rows_counterexample:
  "sink_after ''out.csv'' 5 demo_rng fresh_world \<noteq> Some [map Str headers]"
  using generate_small[of fresh_world "''out.csv''" 5 demo_rng]
  by (simp add: sink_after_def fresh_world_def)

text \<open>
  C5. When a call with a positive row count returns normally, the file holds the
  header first and then exactly \<open>num_rows\<close> data rows; the row at position \<open>k\<close> is the
  record synthesised for loop index \<open>k\<close> and carries the identifier made from
  \<open>k + 1\<close>, so the rows are in index order with none missing and none repeated.
  (By \<open>run_completes_iff\<close> such a call returns normally exactly when the row count is
  at least 20.)
\<close>

theorem completed_run_rows:
  assumes "fst (generate_large_csv fn n g w) = Returned" "0 < n"
  shows "sink_after fn n g w = Some (map Str headers # data_rows fn n g w)
       \<and> length (data_rows fn n g w) = nat n
       \<and> (\<forall>k < nat n. \<exists>g'. data_rows fn n g w ! k = row_cells (fst (synth k g')))
       \<and> (\<forall>k < nat n. data_rows fn n g w ! k ! 0 = Str (''TXN'' @ fmt_0d 8 (int k + 1)))"
proof -
  have w: "writable w fn" using assms(1) by (rule returned_writable)
  with assms have n: "20 \<le> n" by (simp add: run_completes_iff)
  have d: "data_rows fn n g w = map row_cells (txns [0..<nat n] g)"
    using w n by (rule data_rows_large)
  have s: "sink_after fn n g w = Some (map Str headers # data_rows fn n g w)"
    using w n by (simp add: sink_after_writable d rows_done_def)
  have l: "length (data_rows fn n g w) = nat n" by (simp add: d txns_length)
  have r: "\<exists>g'. data_rows fn n g w ! k = row_cells (fst (synth k g'))" if "k < nat n" for k
  proof -
    from txns_upt_nth[OF that, of g] obtain g' where "txns [0..<nat n] g ! k = fst (synth k g')"
      by blast
    then show ?thesis using that by (auto simp: d txns_length)
  qed
  have i: "data_rows fn n g w ! k ! 0 = Str (''TXN'' @ fmt_0d 8 (int k + 1))" if "k < nat n" for k
  proof -
    from r[OF that] obtain g' where "data_rows fn n g w ! k = row_cells (fst (synth k g'))"
      by blast
    then show ?thesis by (simp add: row_cells_nth synth_id)
  qed
  from s l r i show ?thesis by blast
qed

theorem completed_run_rows_witness:
  "fst (generate_large_csv ''out.csv'' 20 demo_rng fresh_world) = Returned \<and> (0::int) < 20
   \<and> sink_after ''out.csv'' 20 demo_rng fresh_world =
       Some (map Str headers # data_rows ''out.csv'' 20 demo_rng fresh_world)
   \<and> length (data_rows ''out.csv'' 20 demo_rng fresh_world) = 20
   \<and> data_rows ''out.csv'' 20 demo_rng fresh_world ! 0 ! 0 = Str ''TXN00000001''
   \<and> data_rows ''out.csv'' 20 demo_rng fresh_world ! 19 ! 0 = Str ''TXN00000020''"
proof -
  have c: "fst (generate_large_csv ''out.csv'' 20 demo_rng fresh_world) = Returned"
    by (simp add: outcome_writable fresh_writable)
  have f: "fmt_0d 8 1 = ''00000001''" "fmt_0d 8 20 = ''00000020''"
    by (simp_all add: fmt_0d_def zero_pad_def dec_small dec_20 replicate_numeral)
  from completed_run_rows[OF c] c f show ?thesis by simp
qed

text \<open>
  C6. In every data row the \<^verbatim>\<open>total_amount\<close> cell (column 7) is
  \<^verbatim>\<open>round(quantity * unit_price * (1 - discount), 2)\<close> of the \<^verbatim>\<open>quantity\<close> (column 5),
  \<^verbatim>\<open>unit_price\<close> (column 6) and \<^verbatim>\<open>discount_applied\<close> (column 10) cells of the same
  row, in float arithmetic: the two products and the difference are each rounded to a
  float, and \<^verbatim>\<open>round\<close> is applied once, to the finished product.
\<close>

theorem total_amount_formula:
  assumes "writable w fn"
  shows "\<forall>r \<in> set (data_rows fn n g w).
           \<exists>q p. r ! 5 = Num q \<and> r ! 6 = Flt p
             \<and> r ! 7 = Flt (py_round (fmul (fmul (of_int q) p) (one_minus (r ! 10))) 2)"
proof
  fix r assume "r \<in> set (data_rows fn n g w)"
  from data_row_synth[OF assms this] obtain j h where r: "r = row_cells (fst (synth j h))"
    by blast
  show "\<exists>q p. r ! 5 = Num q \<and> r ! 6 = Flt p
             \<and> r ! 7 = Flt (py_round (fmul (fmul (of_int q) p) (one_minus (r ! 10))) 2)"
    unfolding r row_cells_nth using synth_total[of j h] by blast
qed

theorem total_amount_formula_witness:
  "writable fresh_world ''out.csv''
   \<and> [Str ''TXN00000001'', Stamp 3 10 17, Str ''CUST000025'', Str ''PROD00032'',
        Str ''Toys'', Num 6, Flt (to_float (599 / 100)), Flt (to_float (3235 / 100)),
        Str ''Debit Card'', Str ''Los Angeles'', Flt (to_float (1 / 10)), Num 35,
        Str ''Platinum'', Str [], Str ''No'']
        \<in> set (data_rows ''out.csv'' 20 demo_rng fresh_world)
   \<and> py_round (fmul (fmul 6 (to_float (599 / 100))) (fsub 1 (to_float (1 / 10)))) 2
       = to_float (3235 / 100)"
proof -
  let ?r = "[Str ''TXN00000001'', Stamp 3 10 17, Str ''CUST000025'', Str ''PROD00032'',
        Str ''Toys'', Num 6, Flt (to_float (599 / 100)), Flt (to_float (3235 / 100)),
        Str ''Debit Card'', Str ''Los Angeles'', Flt (to_float (1 / 10)), Num 35,
        Str ''Platinum'', Str [], Str ''No'']"
  have w: "writable fresh_world ''out.csv''" by (rule fresh_writable)
  have m: "?r \<in> set (data_rows ''out.csv'' 20 demo_rng fresh_world)"
    using first_data_row[OF w, of 20 demo_rng] demo_row by simp
  from total_amount_formula[OF w, of 20 demo_rng, THEN bspec, OF m]
  obtain q p where a: "?r ! 5 = Num q" "?r ! 6 = Flt p"
      "?r ! 7 = Flt (py_round (fmul (fmul (of_int q) p) (one_minus (?r ! 10))) 2)"
    by blast
  from a(1) have q: "q = 6" by simp
  from a(2) have p: "p = to_float (599 / 100)" by simp
  from a(3) have "py_round (fmul (fmul 6 (to_float (599 / 100))) (fsub 1 (to_float (1 / 10)))) 2
       = to_float (3235 / 100)"
    unfolding q p by simp
  with w m show ?thesis by blast
qed

text \<open>
  C7 (amended). The data row at position \<open>i\<close> of the file carries the identifier
  \<^verbatim>\<open>TXN\<close> followed by \<open>i + 1\<close> in the format \<^verbatim>\<open>08d\<close>, which pads with zeros up to eight
  digits and never cuts. Read back as numbers the identifiers are \<open>1, 2, 3, ...\<close>, so
  they increase strictly in their number and no two rows share one. As strings, in
  character order, they increase strictly as long as the number has at most eight
  digits, that is for the rows with \<open>i + 1 < 10^8\<close>.
\<close>

theorem transaction_ids:
  assumes "writable w fn"
  shows "(\<forall>k < length (data_rows fn n g w).
            data_rows fn n g w ! k ! 0 = Str (''TXN'' @ fmt_0d 8 (int k + 1))
            \<and> txn_number (data_rows fn n g w ! k ! 0) = k + 1)
       \<and> (\<forall>j k. j < k \<and> k < length (data_rows fn n g w) \<longrightarrow>
            txn_number (data_rows fn n g w ! j ! 0) < txn_number (data_rows fn n g w ! k ! 0))
       \<and> distinct (map (\<lambda>r. r ! 0) (data_rows fn n g w))
       \<and> (\<forall>j k. j < k \<and> k < length (data_rows fn n g w) \<and> k < 99999999 \<longrightarrow>
            cell_text (data_rows fn n g w ! j ! 0) < cell_text (data_rows fn n g w ! k ! 0))"
proof -
  let ?rows = "data_rows fn n g w"
  have a: "?rows ! k ! 0 = Str (''TXN'' @ fmt_0d 8 (int k + 1))" if "k < length ?rows" for k
    using assms that by (rule data_row_id)
  have b: "txn_number (?rows ! k ! 0) = k + 1" if "k < length ?rows" for k
    unfolding a[OF that] by (rule txn_number_id)
  have c: "txn_number (?rows ! j ! 0) < txn_number (?rows ! k ! 0)"
    if "j < k \<and> k < length ?rows" for j k
    using that b[of j] b[of k] by simp
  have "map txn_number (map (\<lambda>r. r ! 0) ?rows) = map Suc [0..<length ?rows]"
    by (rule nth_equalityI) (simp_all add: b)
  moreover have "distinct (map Suc [0..<length ?rows])" by (simp add: distinct_map)
  ultimately have "distinct (map txn_number (map (\<lambda>r. r ! 0) ?rows))" by simp
  then have d: "distinct (map (\<lambda>r. r ! 0) ?rows)" by (simp only: distinct_map)
  have s: "cell_text (?rows ! j ! 0) < cell_text (?rows ! k ! 0)"
    if "j < k \<and> k < length ?rows \<and> k < 99999999" for j k
  proof -
    from that have j: "j < length ?rows" and k: "k < length ?rows" by auto
    have "''TXN'' @ fmt_0d 8 (int j + 1) < ''TXN'' @ fmt_0d 8 (int k + 1)"
      using that by (intro txn_ids_string_order) auto
    then show ?thesis unfolding a[OF j] a[OF k] by simp
  qed
  from a b c d s show ?thesis by blast
qed

theorem transaction_ids_witness:
  "writable fresh_world ''out.csv''
   \<and> 19 < length (data_rows ''out.csv'' 20 demo_rng fresh_world)
   \<and> data_rows ''out.csv'' 20 demo_rng fresh_world ! 0 ! 0 = Str ''TXN00000001''
   \<and> data_rows ''out.csv'' 20 demo_rng fresh_world ! 19 ! 0 = Str ''TXN00000020''
   \<and> txn_number (data_rows ''out.csv'' 20 demo_rng fresh_world ! 19 ! 0) = 20
   \<and> txn_number (data_rows ''out.csv'' 20 demo_rng fresh_world ! 0 ! 0)
       < txn_number (data_rows ''out.csv'' 20 demo_rng fresh_world ! 19 ! 0)
   \<and> distinct (map (\<lambda>r. r ! 0) (data_rows ''out.csv'' 20 demo_rng fresh_world))
   \<and> cell_text (data_rows ''out.csv'' 20 demo_rng fresh_world ! 0 ! 0)
       < cell_text (data_rows ''out.csv'' 20 demo_rng fresh_world ! 19 ! 0)"
proof -
  have w: "writable fresh_world ''out.csv''" by (rule fresh_writable)
  have l: "length (data_rows ''out.csv'' 20 demo_rng fresh_world) = 20"
    using data_rows_length_large[OF w, of 20 demo_rng] by simp
  have f: "fmt_0d 8 1 = ''00000001''" "fmt_0d 8 20 = ''00000020''"
    by (simp_all add: fmt_0d_def zero_pad_def dec_small dec_20 replicate_numeral)
  from transaction_ids[OF w, of 20 demo_rng] l f w show ?thesis
    by (simp add: num_of_def digit_val_def)
qed

text \<open>
  C7 as stated fails for the identifier strings: in a file of \<open>10^8\<close> rows the last
  identifier has nine digits and stands before its predecessor in character order.
\<close>

theorem ids_decrease_counterexample:
  "data_rows ''out.csv'' 100000000 demo_rng fresh_world ! 99999998 ! 0 = Str ''TXN99999999''
   \<and> data_rows ''out.csv'' 100000000 demo_rng fresh_world ! 99999999 ! 0 = Str ''TXN100000000''
   \<and> cell_text (data_rows ''out.csv'' 100000000 demo_rng fresh_world ! 99999999 ! 0)
       < cell_text (data_rows ''out.csv'' 100000000 demo_rng fresh_world ! 99999998 ! 0)"
proof -
  have w: "writable fresh_world ''out.csv''" by (rule fresh_writable)
  have l: "length (data_rows ''out.csv'' 100000000 demo_rng fresh_world) = 100000000"
    using data_rows_length_large[OF w, of 100000000 demo_rng] by simp
  have f: "fmt_0d 8 99999999 = ''99999999''" "fmt_0d 8 100000000 = ''100000000''"
    by (simp_all add: fmt_0d_def zero_pad_def dec.simps digit_char_def)
  have a: "data_rows ''out.csv'' 100000000 demo_rng fresh_world ! 99999998 ! 0
      = Str ''TXN99999999''"
    using data_row_id[OF w, of 99999998 100000000 demo_rng] l f by simp
  have b: "data_rows ''out.csv'' 100000000 demo_rng fresh_world ! 99999999 ! 0
      = Str ''TXN100000000''"
    using data_row_id[OF w, of 99999999 100000000 demo_rng] l f by simp
  show ?thesis unfolding a b by (simp add: less_char_def)
qed

text \<open>
  C8. In every data row, whatever the random source yields, the \<^verbatim>\<open>quantity\<close> cell is
  an integer from 1 to 10, the \<^verbatim>\<open>customer_age\<close> cell an integer from 18 to 80, and the
  \<^verbatim>\<open>unit_price\<close> cell is a float between the floats \<^verbatim>\<open>5.99\<close> and \<^verbatim>\<open>999.99\<close>: it is the
  float of a whole number of cents from 599 to 99999.
\<close>

theorem field_ranges:
  assumes "writable w fn"
  shows "\<forall>r \<in> set (data_rows fn n g w).
           \<exists>q a p. r ! 5 = Num q \<and> 1 \<le> q \<and> q \<le> 10
             \<and> r ! 11 = Num a \<and> 18 \<le> a \<and> a \<le> 80
             \<and> r ! 6 = Flt p \<and> to_float (599 / 100) \<le> p \<and> p \<le> to_float (99999 / 100)
             \<and> 599 / 100 \<le> p
             \<and> (\<exists>K. 599 \<le> K \<and> K \<le> 99999 \<and> p = to_float (of_int K / 100))"
proof
  fix r assume "r \<in> set (data_rows fn n g w)"
  from data_row_synth[OF assms this] obtain j h where r: "r = row_cells (fst (synth j h))"
    by blast
  from synth_price[of j h] obtain K where K: "599 \<le> K" "K \<le> 99999"
    "unit_price (fst (synth j h)) = to_float (of_int K / 100)"
    "to_float (599 / 100) \<le> unit_price (fst (synth j h))"
    "unit_price (fst (synth j h)) \<le> to_float (99999 / 100)" by blast
  have e: "599 / 100 \<le> unit_price (fst (synth j h))"
    using K(4) by (simp add: price_lo_val)
  show "\<exists>q a p. r ! 5 = Num q \<and> 1 \<le> q \<and> q \<le> 10
             \<and> r ! 11 = Num a \<and> 18 \<le> a \<and> a \<le> 80
             \<and> r ! 6 = Flt p \<and> to_float (599 / 100) \<le> p \<and> p \<le> to_float (99999 / 100)
             \<and> 599 / 100 \<le> p
             \<and> (\<exists>K. 599 \<le> K \<and> K \<le> 99999 \<and> p = to_float (of_int K / 100))"
    unfolding r row_cells_nth
    using synth_quantity[of j h] synth_age[of j h] K e by blast
qed

theorem field_ranges_witness:
  "writable fresh_world ''out.csv''
   \<and> [Str ''TXN00000001'', Stamp 3 10 17, Str ''CUST000025'', Str ''PROD00032'',
        Str ''Toys'', Num 6, Flt (to_float (599 / 100)), Flt (to_float (3235 / 100)),
        Str ''Debit Card'', Str ''Los Angeles'', Flt (to_float (1 / 10)), Num 35,
        Str ''Platinum'', Str [], Str ''No'']
        \<in> set (data_rows ''out.csv'' 20 demo_rng fresh_world)
   \<and> (1::int) \<le> 6 \<and> (6::int) \<le> 10 \<and> (18::int) \<le> 35 \<and> (35::int) \<le> 80
   \<and> to_float (599 / 100) \<le> to_float (599 / 100)
   \<and> to_float (599 / 100) \<le> to_float (99999 / 100)"
proof -
  let ?r = "[Str ''TXN00000001'', Stamp 3 10 17, Str ''CUST000025'', Str ''PROD00032'',
        Str ''Toys'', Num 6, Flt (to_float (599 / 100)), Flt (to_float (3235 / 100)),
        Str ''Debit Card'', Str ''Los Angeles'', Flt (to_float (1 / 10)), Num 35,
        Str ''Platinum'', Str [], Str ''No'']"
  have w: "writable fresh_world ''out.csv''" by (rule fresh_writable)
  have m: "?r \<in> set (data_rows ''out.csv'' 20 demo_rng fresh_world)"
    using first_data_row[OF w, of 20 demo_rng] demo_row by simp
  from field_ranges[OF w, of 20 demo_rng, THEN bspec, OF m]
  obtain q a p where a: "?r ! 5 = Num q" "1 \<le> q" "q \<le> 10" "?r ! 11 = Num a" "18 \<le> a"
      "a \<le> 80" "?r ! 6 = Flt p" "to_float (599 / 100) \<le> p" "p \<le> to_float (99999 / 100)"
    by blast
  from a(1) have q: "q = 6" by simp
  from a(4) have g: "a = 35" by simp
  from a(7) have p: "p = to_float (599 / 100)" by simp
  from a(2,3,5,6,8,9) have "(1::int) \<le> 6 \<and> (6::int) \<le> 10 \<and> (18::int) \<le> 35 \<and> (35::int) \<le> 80
   \<and> to_float (599 / 100) \<le> to_float (599 / 100)
   \<and> to_float (599 / 100) \<le> to_float (99999 / 100)"
    unfolding q g p by blast
  with w m show ?thesis by blast
qed

text \<open>
  C9 (amended). The selector is lower-cased before it is compared (line 84). For every
  selector whose lower-case form is none of \<^verbatim>\<open>small\<close>, \<^verbatim>\<open>medium\<close>, \<^verbatim>\<open>large\<close>,
  \<^verbatim>\<open>xlarge\<close>, the program prints the usage line and returns normally: the generator
  is not called, and the files are as they were.
\<close>

theorem unknown_selector_usage:
  assumes "1 < length argv"
    and "lower (argv ! 1) \<notin> {''small'', ''medium'', ''large'', ''xlarge''}"
  shows "main argv g w = (Returned, w\<lparr>stdout := stdout w @ [Usage]\<rparr>)"
  using assms by (simp add: main_def Let_def)

theorem unknown_selector_usage_witness:
  "1 < length [''generate-large-csv.py'', ''xyz'']
   \<and> lower ([''generate-large-csv.py'', ''xyz''] ! 1) \<notin> {''small'', ''medium'', ''large'', ''xlarge''}
   \<and> main [''generate-large-csv.py'', ''xyz''] demo_rng fresh_world =
       (Returned, fresh_world\<lparr>stdout := [Usage]\<rparr>)"
proof -
  have l: "lower ''xyz'' = ''xyz''" by (simp add: lower_def lower_char_def)
  have s: "stdout fresh_world = []" by (simp add: fresh_world_def)
  from unknown_selector_usage[of "[''generate-large-csv.py'', ''xyz'']" demo_rng fresh_world] l s
  show ?thesis by simp
qed

text \<open>
  C9 as stated fails: \<^verbatim>\<open>SMALL\<close> is none of the four names, yet the generator runs on
  the small preset and its file is produced.
\<close>

theorem selector_case_counterexample:
  "''SMALL'' \<notin> {''small'', ''medium'', ''large'', ''xlarge''}
   \<and> files (snd (main [''generate-large-csv.py'', ''SMALL''] demo_rng fresh_world))
        ''test-datasets/large/transactions-small.csv'' \<noteq> None
   \<and> hd (stdout (snd (main [''generate-large-csv.py'', ''SMALL''] demo_rng fresh_world)))
        = Generating 10000"
proof -
  have l: "lower ''SMALL'' = ''small''" by (simp add: lower_def lower_char_def)
  have m: "main [''generate-large-csv.py'', ''SMALL''] demo_rng fresh_world =
      generate_large_csv ''test-datasets/large/transactions-small.csv'' 10000 demo_rng fresh_world"
    by (simp add: main_def Let_def l)
  have s: "stdout fresh_world = []" by (simp add: fresh_world_def)
  show ?thesis unfolding m
    using generate_large[of fresh_world "''test-datasets/large/transactions-small.csv''" 10000 demo_rng]
    by (simp add: fresh_writable s)
qed

text \<open>
  C10 (amended). For a row count of at least 20 and a file that can be opened, a
  progress line is printed exactly when the number of rows written is a multiple of
  \<open>num_rows div 20\<close>; the line carries the float \<^verbatim>\<open>(i + 1) / num_rows * 100\<close> and the
  row count, and a flush follows it at once. When the row count is a multiple of 20
  these are exactly the rows at which the count crosses a twentieth of the total.
\<close>

theorem progress_lines:
  assumes "writable w fn" "20 \<le> n"
  shows "progress_counts (emitted fn n g w) =
           filter (\<lambda>r. r mod (n div 20) = 0) (map (\<lambda>i. int i + 1) [0..<nat n])
       \<and> set (progress_counts (emitted fn n g w)) = {r. 1 \<le> r \<and> r \<le> n \<and> r mod (n div 20) = 0}
       \<and> flushed (emitted fn n g w)
       \<and> (\<forall>p r. Progress p r \<in> set (emitted fn n g w) \<longrightarrow> p = fmul (fdiv (of_int r) (of_int n)) 100)
       \<and> (n mod 20 = 0 \<longrightarrow>
            (\<forall>r. r \<in> set (progress_counts (emitted fn n g w)) \<longleftrightarrow> crosses_boundary n r))"
proof -
  note e = emitted_large[OF assms, of g]
  note c = progress_counts_large[OF assms, of g]
  note s = progress_set_large[OF assms, of g]
  have f: "flushed (emitted fn n g w)"
    unfolding e by (intro flushed_append flushed_loop) simp_all
  have p: "p = fmul (fdiv (of_int r) (of_int n)) 100" if "Progress p r \<in> set (emitted fn n g w)" for p r
    using that progress_pct_loop[of p r n "n div 20" "[0..<nat n]"] by (auto simp: e)
  have m: "r \<in> set (progress_counts (emitted fn n g w)) \<longleftrightarrow> crosses_boundary n r"
    if "n mod 20 = 0" for r
  proof -
    from that have n: "n = 20 * (n div 20)" by presburger
    with assms(2) have "0 < n div 20" by presburger
    from crosses_multiple[OF this, of r] n show ?thesis unfolding s by simp
  qed
  show ?thesis
  proof (intro conjI allI impI)
    show "progress_counts (emitted fn n g w) =
           filter (\<lambda>r. r mod (n div 20) = 0) (map (\<lambda>i. int i + 1) [0..<nat n])"
      by (rule c)
    show "set (progress_counts (emitted fn n g w)) = {r. 1 \<le> r \<and> r \<le> n \<and> r mod (n div 20) = 0}"
      by (rule s)
    show "flushed (emitted fn n g w)" by (rule f)
    show "p = fmul (fdiv (of_int r) (of_int n)) 100" if "Progress p r \<in> set (emitted fn n g w)" for p r
      using that by (rule p)
    show "r \<in> set (progress_counts (emitted fn n g w)) \<longleftrightarrow> crosses_boundary n r"
      if "n mod 20 = 0" for r
      using that by (rule m)
  qed
qed

theorem progress_lines_witness:
  "writable fresh_world ''out.csv'' \<and> (20::int) \<le> 40 \<and> (40::int) mod 20 = 0
   \<and> progress_counts (emitted ''out.csv'' 40 demo_rng fresh_world) =
       [2, 4, 6, 8, 10, 12, 14, 16, 18, 20, 22, 24, 26, 28, 30, 32, 34, 36, 38, 40]
   \<and> flushed (emitted ''out.csv'' 40 demo_rng fresh_world)"
proof -
  have w: "writable fresh_world ''out.csv''" by (rule fresh_writable)
  have l: "filter (\<lambda>r. r mod (40 div 20) = 0) (map (\<lambda>i. int i + 1) [0..<nat 40])
     = [2, 4, 6, 8, 10, 12, 14, 16, 18, 20, 22, 24, 26, 28, 30, 32, 34, 36, 38, 40]"
    by code_simp
  from progress_lines[OF w, of 40 demo_rng] l w show ?thesis by simp
qed

text \<open>
  C10 as stated fails in its general part. With 50 rows the third row takes the
  count across the first twentieth (2.5), and no progress line is printed there; a
  line is printed at the second row, where no twentieth is crossed.
\<close>

theorem progress_boundary_counterexample:
  "crosses_boundary 50 3
   \<and> 3 \<notin> set (progress_counts (emitted ''out.csv'' 50 demo_rng fresh_world))
   \<and> 2 \<in> set (progress_counts (emitted ''out.csv'' 50 demo_rng fresh_world))
   \<and> \<not> crosses_boundary 50 2"
proof -
  have a: "crosses_boundary 50 3"
    unfolding crosses_boundary_def by (rule bexI[of _ 1]) simp_all
  have s: "set (progress_counts (emitted ''out.csv'' 50 demo_rng fresh_world))
      = {r. 1 \<le> r \<and> r \<le> 50 \<and> r mod 2 = 0}"
    using progress_set_large[of fresh_world "''out.csv''" 50 demo_rng]
    by (simp add: fresh_writable)
  have d: "\<not> crosses_boundary 50 2"
    unfolding crosses_boundary_def by auto
  from a s d show ?thesis by simp
qed

end
